theory Spec2Isabelle
  imports Main
begin

section \<open>Configuration (drive\_sync.py, lines 22-30)\<close>

definition DRIVE_FOLDER_ID :: string where
  "DRIVE_FOLDER_ID = ''18hufMLDrwAxgDhNk4z4CZi6yVWOEx6gI''"

definition MOUNT_DIR :: string where
  "MOUNT_DIR = ''/tmp/myfs_mount''"

section \<open>The string and path functions of the Python library that the daemon calls\<close>

text \<open>\<^verbatim>\<open>s.split("/")\<close>: the pieces between separators; never an empty list.\<close>

fun split_sep :: "string \<Rightarrow> string list" where
  "split_sep [] = [[]]"
| "split_sep (c # cs) =
     (if c = CHR ''/'' then [] # split_sep cs
      else (case split_sep cs of [] \<Rightarrow> [[c]] | s # ss \<Rightarrow> (c # s) # ss))"

text \<open>\<^verbatim>\<open>s.strip("/")\<close>: leading and trailing separators removed.\<close>

definition strip_sep :: "string \<Rightarrow> string" where
  "strip_sep s =
     rev (dropWhile (\<lambda>c. c = CHR ''/'') (rev (dropWhile (\<lambda>c. c = CHR ''/'') s)))"

text \<open>\<^verbatim>\<open>s.rstrip("/")\<close>.\<close>

definition rstrip_sep :: "string \<Rightarrow> string" where
  "rstrip_sep s = rev (dropWhile (\<lambda>c. c = CHR ''/'') (rev s))"

text \<open>\<^verbatim>\<open>os.path.join(a, b)\<close> of posixpath, for two arguments.\<close>

definition os_path_join :: "string \<Rightarrow> string \<Rightarrow> string" where
  "os_path_join a b =
     (if b \<noteq> [] \<and> hd b = CHR ''/'' then b
      else if a = [] \<or> last a = CHR ''/'' then a @ b
      else a @ ''/'' @ b)"

text \<open>\<^verbatim>\<open>os.path.join(*parts)\<close> for a non-empty list of parts; the empty list is
  not a call the library accepts and never reaches this function.\<close>

definition join_all :: "string list \<Rightarrow> string" where
  "join_all parts = (case parts of [] \<Rightarrow> [] | a # p \<Rightarrow> foldl os_path_join a p)"

text \<open>\<^verbatim>\<open>os.path.dirname(p)\<close> of posixpath: everything up to the last separator, with
  trailing separators removed unless the head consists of separators only.\<close>

definition dirname :: "string \<Rightarrow> string" where
  "dirname p =
     (let head = rev (dropWhile (\<lambda>c. c \<noteq> CHR ''/'') (rev p))
      in if head \<noteq> [] \<and> head \<noteq> replicate (length head) (CHR ''/'')
         then rstrip_sep head else head)"

text \<open>The component loop of \<^verbatim>\<open>os.path.normpath\<close> on an absolute path: empty and
  \<^verbatim>\<open>.\<close> components are skipped, \<^verbatim>\<open>..\<close> removes the component before it (and is
  dropped at the root).\<close>

definition norm_step :: "string list \<Rightarrow> string \<Rightarrow> string list" where
  "norm_step new_comps cmp =
     (if cmp = [] \<or> cmp = ''.'' then new_comps
      else if cmp \<noteq> ''..'' then new_comps @ [cmp]
      else butlast new_comps)"

text \<open>\<^verbatim>\<open>[x for x in abspath(p).split("/") if x]\<close> for an absolute path \<open>p\<close> (every
  path the daemon hands to \<^verbatim>\<open>relpath\<close> starts with the mount directory).\<close>

definition abs_comps :: "string \<Rightarrow> string list" where
  "abs_comps p = foldl norm_step [] (split_sep p)"

text \<open>\<^verbatim>\<open>os.path.commonprefix\<close> on two component lists.\<close>

fun commonprefix :: "string list \<Rightarrow> string list \<Rightarrow> string list" where
  "commonprefix (x # xs) (y # ys) = (if x = y then x # commonprefix xs ys else [])"
| "commonprefix _ _ = []"

text \<open>\<^verbatim>\<open>os.path.relpath(path, start)\<close> of posixpath, for absolute arguments.\<close>

definition relpath :: "string \<Rightarrow> string \<Rightarrow> string" where
  "relpath path start =
     (let start_list = abs_comps start;
          path_list = abs_comps path;
          i = length (commonprefix start_list path_list);
          rel_list = replicate (length start_list - i) ''..'' @ drop i path_list
      in if rel_list = [] then ''.'' else join_all rel_list)"

section \<open>The local file system\<close>

text \<open>A directory tree as \<^verbatim>\<open>os.scandir\<close> lists it: a directory holds named entries in
  listing order; anything that is not a directory is a file.\<close>

datatype tree = File | Dir "(string \<times> tree) list"

fun is_dir :: "tree \<Rightarrow> bool" where
  "is_dir File = False"
| "is_dir (Dir _) = True"

text \<open>What one cycle sees of the local side: \<open>notes_entry\<close> is the entry \<^verbatim>\<open>notes\<close> of the mount
  directory when the walk starts (\<open>None\<close>: there is none); \<open>fopen\<close> is what opening a path
  for reading gives at upload time (\<open>None\<close>: the open fails, the file has vanished or is
  unreadable).\<close>

record local_fs =
  notes_entry :: "tree option"
  fopen :: "string \<rightharpoonup> string"

text \<open>\<^verbatim>\<open>os.walk(top)\<close>, top-down: the triple of a directory, then the walks of its
  subdirectories in listing order. A top that cannot be listed yields nothing.\<close>

fun os_walk :: "string \<Rightarrow> tree \<Rightarrow> (string \<times> string list \<times> string list) list" where
  "os_walk dirpath File = []"
| "os_walk dirpath (Dir entries) =
     (dirpath, map fst (filter (\<lambda>e. is_dir (snd e)) entries),
           map fst (filter (\<lambda>e. \<not> is_dir (snd e)) entries))
     # concat (map (\<lambda>e. os_walk (os_path_join dirpath (fst e)) (snd e))
                   (filter (\<lambda>e. is_dir (snd e)) entries))"

section \<open>The remote store behind the Drive service handle\<close>

text \<open>An object of the store with the attributes the daemon's queries name or ask for:
  \<open>is_folder\<close> stands for the folder mimeType, \<open>media\<close> is the content, and
  \<open>modified\<close> is the store's time stamp of the last write, counted in requests.\<close>

record obj =
  oid :: string
  oname :: string
  oparents :: "string list"
  is_folder :: bool
  trashed :: bool
  media :: string
  modified :: nat

text \<open>The requests the daemon sends: the two list queries, the two creations (a file
  creation and an update carry the local path of their media body) and the update.\<close>

datatype call =
    ListFolders string string
  | ListFiles string string
  | CreateFolder string string
  | CreateFile string string string
  | UpdateFile string string

text \<open>The exceptions that reach the daemon's code: \<^verbatim>\<open>HttpError\<close> is the error response
  of the store; \<^verbatim>\<open>OSError\<close> is a local file that cannot be opened;
  \<^verbatim>\<open>UnicodeEncodeError\<close> is a request whose text cannot be encoded;
  \<open>TransportError\<close> stands for every failure below the API client (a timeout, a
  connection that is reset, a name that does not resolve), none of which is an
  \<^verbatim>\<open>HttpError\<close>.\<close>

datatype error = HttpError | OSError | UnicodeEncodeError | TransportError

text \<open>What becomes of a request: the store answers it with a result, the store answers it
  with an error response, or no answer arrives.\<close>

datatype answer = Answered | Refused | Lost

text \<open>The state the program acts on besides its own variables: the objects of the store
  in store-defined order, the store's supply of ids, what becomes of the coming
  requests (past the end of the list every request is answered with a result), the
  requests the store has answered so far, and the lines printed.\<close>

record world =
  objects :: "obj list"
  fresh :: nat
  faults :: "answer list"
  calls :: "call list"
  out :: "string list"

definition print_line :: "string \<Rightarrow> world \<Rightarrow> world" where
  "print_line s w = w\<lparr>out := out w @ [s]\<rparr>"

text \<open>\<^verbatim>\<open>.execute()\<close>: the request is sent, which uses up the next entry of \<open>faults\<close>;
  the result is the exception raised, if any. A request without an answer has no effect
  on the store and is not among the requests answered.\<close>

definition execute :: "call \<Rightarrow> world \<Rightarrow> error option \<times> world" where
  "execute c w =
     (case faults w of
        [] \<Rightarrow> (None, w\<lparr>calls := calls w @ [c]\<rparr>)
      | Answered # fs \<Rightarrow> (None, w\<lparr>calls := calls w @ [c], faults := fs\<rparr>)
      | Refused # fs \<Rightarrow> (Some HttpError, w\<lparr>calls := calls w @ [c], faults := fs\<rparr>)
      | Lost # fs \<Rightarrow> (Some TransportError, w\<lparr>faults := fs\<rparr>))"

text \<open>File names are byte strings; Python holds the bytes that are not UTF-8 as lone
  surrogates, and the API client fails to encode a request text that contains one. So a
  name can be sent exactly when its bytes are well-formed UTF-8: \<open>seq_len\<close> is the length
  of the well-formed sequence at the head of a string (Unicode, table 3-7), or 0 when
  there is none.\<close>

definition seq_len :: "string \<Rightarrow> nat" where
  "seq_len s =
     (case map of_char (take 4 s) of
        [] \<Rightarrow> 0
      | b # t \<Rightarrow>
          (let cont = (\<lambda>x::nat. 0x80 \<le> x \<and> x \<le> 0xBF);
               second = (\<lambda>x::nat.
                  (if b = 0xE0 then 0xA0 else if b = 0xF0 then 0x90 else 0x80) \<le> x
                  \<and> x \<le> (if b = 0xED then 0x9F else if b = 0xF4 then 0x8F else 0xBF))
           in if b < 0x80 then 1
              else if 0xC2 \<le> b \<and> b \<le> 0xDF
                then (case t of x # _ \<Rightarrow> if cont x then 2 else 0 | _ \<Rightarrow> 0)
              else if 0xE0 \<le> b \<and> b \<le> 0xEF
                then (case t of x # y # _ \<Rightarrow> if second x \<and> cont y then 3 else 0 | _ \<Rightarrow> 0)
              else if 0xF0 \<le> b \<and> b \<le> 0xF4
                then (case t of x # y # z # _ \<Rightarrow>
                              if second x \<and> cont y \<and> cont z then 4 else 0
                      | _ \<Rightarrow> 0)
              else 0))"

function utf8_ok :: "string \<Rightarrow> bool" where
  "utf8_ok s =
     (if s = [] then True
      else if seq_len s = 0 then False
      else utf8_ok (drop (seq_len s) s))"
  by pat_completeness auto
termination
  by (relation "measure length") auto

declare utf8_ok.simps [simp del]

text \<open>The source pastes a name between single quotes into the query text without
  escaping it. The quoted text denotes the name only when the name holds neither a
  quote nor a backslash; the store is taken to reject every other query.\<close>

definition literal_ok :: "string \<Rightarrow> bool" where
  "literal_ok s = (CHR 0x27 \<notin> set s \<and> CHR 0x5C \<notin> set s)"

text \<open>The query \<^verbatim>\<open>'<parent>' in parents and name = '<name>' [and mimeType = folder] and
  trashed = false\<close> on one object.\<close>

definition matches :: "bool \<Rightarrow> string \<Rightarrow> string \<Rightarrow> obj \<Rightarrow> bool" where
  "matches folders_only parent name ob =
     (parent \<in> set (oparents ob) \<and> oname ob = name
      \<and> (folders_only \<longrightarrow> is_folder ob) \<and> \<not> trashed ob)"

text \<open>\<^verbatim>\<open>service.files().list(q=q, fields=...).execute()\<close> followed by
  \<^verbatim>\<open>res.get("files", [])\<close>. Building the request encodes the query text, which
  fails for a name that is not UTF-8 before anything is sent; a query that the store
  cannot read is answered with an error response.\<close>

definition files_list :: "bool \<Rightarrow> string \<Rightarrow> string \<Rightarrow> world \<Rightarrow> (error + obj list) \<times> world" where
  "files_list folders_only parent name w =
     (if \<not> utf8_ok name then (Inl UnicodeEncodeError, w)
      else
        (case execute ((if folders_only then ListFolders else ListFiles) parent name) w of
           (Some e, w') \<Rightarrow> (Inl e, w')
         | (None, w') \<Rightarrow>
             if \<not> literal_ok name then (Inl HttpError, w')
             else (Inr (filter (matches folders_only parent name) (objects w')), w')))"

definition new_id :: "nat \<Rightarrow> string" where
  "new_id n = CHR ''n'' # replicate n (CHR ''i'')"

text \<open>\<^verbatim>\<open>service.files().create(body=..., [media_body=...,] fields="id").execute()\<close>: a
  new object at the end of the store's order, under a new id. A request that raises
  creates nothing.\<close>

definition files_create ::
  "call \<Rightarrow> string \<Rightarrow> string \<Rightarrow> bool \<Rightarrow> string \<Rightarrow> world \<Rightarrow> (error + string) \<times> world" where
  "files_create c parent name folder content w =
     (case execute c w of
        (Some e, w') \<Rightarrow> (Inl e, w')
      | (None, w') \<Rightarrow>
          (Inr (new_id (fresh w')),
           w'\<lparr>objects := objects w' @
                 [\<lparr>oid = new_id (fresh w'), oname = name, oparents = [parent],
                   is_folder = folder, trashed = False, media = content,
                   modified = length (calls w')\<rparr>],
               fresh := Suc (fresh w')\<rparr>))"

text \<open>\<^verbatim>\<open>service.files().update(fileId=..., media_body=media).execute()\<close>: the content of
  the object with that id is replaced; an id the store does not hold is an error.\<close>

definition files_update :: "string \<Rightarrow> string \<Rightarrow> string \<Rightarrow> world \<Rightarrow> (error + string) \<times> world" where
  "files_update file_id local_path content w =
     (case execute (UpdateFile file_id local_path) w of
        (Some e, w') \<Rightarrow> (Inl e, w')
      | (None, w') \<Rightarrow>
          if file_id \<notin> oid ` set (objects w') then (Inl HttpError, w')
          else (Inr file_id,
                w'\<lparr>objects :=
                     map (\<lambda>ob. if oid ob = file_id
                               then ob\<lparr>media := content, modified := length (calls w')\<rparr>
                               else ob)
                         (objects w')\<rparr>))"

section \<open>drive\_sync.py\<close>

definition find_child_folder :: "world \<Rightarrow> string \<Rightarrow> string \<Rightarrow> (error + string option) \<times> world" where
  "find_child_folder w parent_id folder_name =
     (case files_list True parent_id folder_name w of
        (Inl e, w') \<Rightarrow> (Inl e, w')
      | (Inr files, w') \<Rightarrow> (Inr (case files of [] \<Rightarrow> None | f # _ \<Rightarrow> Some (oid f)), w'))"

definition create_folder :: "world \<Rightarrow> string \<Rightarrow> string \<Rightarrow> (error + string) \<times> world" where
  "create_folder w parent_id folder_name =
     files_create (CreateFolder parent_id folder_name) parent_id folder_name True [] w"

text \<open>Python's truth value of \<^verbatim>\<open>found\<close>: \<^verbatim>\<open>None\<close> and the empty string are false.\<close>

definition truthy :: "string option \<Rightarrow> bool" where
  "truthy found = (case found of None \<Rightarrow> False | Some i \<Rightarrow> i \<noteq> [])"

text \<open>The loop \<^verbatim>\<open>for p in parts\<close> of \<^verbatim>\<open>ensure_drive_path\<close>.\<close>

fun ensure_loop :: "string list \<Rightarrow> string \<Rightarrow> world \<Rightarrow> (error + string) \<times> world" where
  "ensure_loop [] parent w = (Inr parent, w)"
| "ensure_loop (p # parts) parent w =
     (case find_child_folder w parent p of
        (Inl e, w1) \<Rightarrow> (Inl e, w1)
      | (Inr found, w1) \<Rightarrow>
          if truthy found then ensure_loop parts (the found) w1
          else (case create_folder w1 parent p of
                  (Inl e, w2) \<Rightarrow> (Inl e, w2)
                | (Inr i, w2) \<Rightarrow> ensure_loop parts i w2))"

definition ensure_drive_path :: "world \<Rightarrow> string \<Rightarrow> (error + string) \<times> world" where
  "ensure_drive_path w rel_dir =
     (if rel_dir = [] \<or> rel_dir = ''.'' then (Inr DRIVE_FOLDER_ID, w)
      else ensure_loop (split_sep (strip_sep rel_dir)) DRIVE_FOLDER_ID w)"

definition find_drive_file :: "world \<Rightarrow> string \<Rightarrow> string \<Rightarrow> (error + obj option) \<times> world" where
  "find_drive_file w drive_parent_id filename =
     (case files_list False drive_parent_id filename w of
        (Inl e, w') \<Rightarrow> (Inl e, w')
      | (Inr files, w') \<Rightarrow> (Inr (case files of [] \<Rightarrow> None | f # _ \<Rightarrow> Some f), w'))"

text \<open>The text of an exception in the \<^verbatim>\<open>[ERROR]\<close> line.\<close>

definition str_error :: "error \<Rightarrow> string" where
  "str_error e =
     (case e of HttpError \<Rightarrow> ''HttpError'' | OSError \<Rightarrow> ''OSError''
      | UnicodeEncodeError \<Rightarrow> ''UnicodeEncodeError'' | TransportError \<Rightarrow> ''TransportError'')"

text \<open>The clause \<^verbatim>\<open>except HttpError as e\<close>: that error is printed and swallowed, any
  other one goes on to the caller.\<close>

definition except_HttpError :: "string \<Rightarrow> error \<Rightarrow> world \<Rightarrow> (error + unit) \<times> world" where
  "except_HttpError local_path e w =
     (if e = HttpError
      then (Inr (), print_line (''[ERROR] '' @ local_path @ '': '' @ str_error e) w)
      else (Inl e, w))"

text \<open>\<^verbatim>\<open>MediaFileUpload(local, resumable=True)\<close> opens the file, inside the \<^verbatim>\<open>try\<close>.\<close>

definition upload_or_update ::
  "world \<Rightarrow> (string \<rightharpoonup> string) \<Rightarrow> string \<Rightarrow> string \<Rightarrow> string \<Rightarrow> (error + unit) \<times> world" where
  "upload_or_update w opn local_path parent name =
     (case opn local_path of
        None \<Rightarrow> except_HttpError local_path OSError w
      | Some content \<Rightarrow>
          (case find_drive_file w parent name of
             (Inl e, w1) \<Rightarrow> except_HttpError local_path e w1
           | (Inr (Some existing), w1) \<Rightarrow>
               (case files_update (oid existing) local_path content w1 of
                  (Inl e, w2) \<Rightarrow> except_HttpError local_path e w2
                | (Inr _, w2) \<Rightarrow> (Inr (), print_line (''[UPDATE] '' @ name) w2))
           | (Inr None, w1) \<Rightarrow>
               (case files_create (CreateFile parent name local_path) parent name False content w1 of
                  (Inl e, w2) \<Rightarrow> except_HttpError local_path e w2
                | (Inr _, w2) \<Rightarrow> (Inr (), print_line (''[UPLOAD] '' @ name) w2))))"

text \<open>The body of the inner loop of \<^verbatim>\<open>scan_and_sync\<close>, for the file \<open>fname\<close> of the
  directory \<open>root\<close>.\<close>

definition sync_file ::
  "(string \<rightharpoonup> string) \<Rightarrow> string \<Rightarrow> string \<Rightarrow> world \<Rightarrow> string set
     \<Rightarrow> (error + unit) \<times> world \<times> string set" where
  "sync_file opn root fname w uploaded_set =
     (let local_path = os_path_join root fname;
          rel_path = relpath local_path MOUNT_DIR
      in if rel_path \<in> uploaded_set then (Inr (), w, uploaded_set)
         else
           (let rel_dir = dirname rel_path
            in case ensure_drive_path w rel_dir of
                 (Inl e, w1) \<Rightarrow> (Inl e, w1, uploaded_set)
               | (Inr drive_parent, w1) \<Rightarrow>
                   (case upload_or_update w1 opn local_path drive_parent fname of
                      (Inl e, w2) \<Rightarrow> (Inl e, w2, uploaded_set)
                    | (Inr _, w2) \<Rightarrow> (Inr (), w2, insert rel_path uploaded_set))))"

text \<open>\<^verbatim>\<open>for fname in files\<close>.\<close>

fun sync_files ::
  "(string \<rightharpoonup> string) \<Rightarrow> string \<Rightarrow> string list \<Rightarrow> world \<Rightarrow> string set
     \<Rightarrow> (error + unit) \<times> world \<times> string set" where
  "sync_files opn root [] w uploaded_set = (Inr (), w, uploaded_set)"
| "sync_files opn root (fname # files) w uploaded_set =
     (case sync_file opn root fname w uploaded_set of
        (Inl e, w', up') \<Rightarrow> (Inl e, w', up')
      | (Inr _, w', up') \<Rightarrow> sync_files opn root files w' up')"

text \<open>\<^verbatim>\<open>for root, _, files in os.walk(notes_dir)\<close>.\<close>

fun sync_walk ::
  "(string \<rightharpoonup> string) \<Rightarrow> (string \<times> string list \<times> string list) list \<Rightarrow> world \<Rightarrow> string set
     \<Rightarrow> (error + unit) \<times> world \<times> string set" where
  "sync_walk opn [] w uploaded_set = (Inr (), w, uploaded_set)"
| "sync_walk opn ((root, _, files) # rest) w uploaded_set =
     (case sync_files opn root files w uploaded_set of
        (Inl e, w', up') \<Rightarrow> (Inl e, w', up')
      | (Inr _, w', up') \<Rightarrow> sync_walk opn rest w' up')"

definition scan_and_sync ::
  "local_fs \<Rightarrow> world \<Rightarrow> string set \<Rightarrow> (error + unit) \<times> world \<times> string set" where
  "scan_and_sync fs w uploaded_set =
     (let notes_dir = os_path_join MOUNT_DIR ''notes''
      in case notes_entry fs of
           None \<Rightarrow> (Inr (), w, uploaded_set)
         | Some t \<Rightarrow> sync_walk (fopen fs) (os_walk notes_dir t) w uploaded_set)"

text \<open>The loop \<^verbatim>\<open>while True\<close> of \<^verbatim>\<open>main\<close>. Each cycle meets the local file system as
  it is then, so the loop runs over the list of these; the stop signal
  (\<^verbatim>\<open>KeyboardInterrupt\<close>) comes during the sleep after the last of them. The result is
  \<open>None\<close> when the loop was stopped by the signal and the exception that ended it
  otherwise.\<close>

fun daemon_loop :: "local_fs list \<Rightarrow> world \<Rightarrow> string set \<Rightarrow> error option \<times> world \<times> string set" where
  "daemon_loop [] w uploaded = (None, w, uploaded)"
| "daemon_loop (fs # later) w uploaded =
     (case scan_and_sync fs w uploaded of
        (Inl e, w', up') \<Rightarrow> (Some e, w', up')
      | (Inr _, w', up') \<Rightarrow> daemon_loop later w' up')"

text \<open>\<^verbatim>\<open>main\<close>, from the service handle that \<^verbatim>\<open>build_drive_service\<close> returned.\<close>

definition main :: "local_fs list \<Rightarrow> world \<Rightarrow> error option \<times> world \<times> string set" where
  "main cycles w =
     (case daemon_loop cycles (print_line ''Drive sync (OAuth) starting...'' w) {} of
        (None, w', up) \<Rightarrow> (None, print_line ''Stopped.'' w', up)
      | (Some e, w', up) \<Rightarrow> (Some e, w', up))"

section \<open>Notions for stating the properties\<close>

text \<open>What becomes of the next request, given the entries still to come.\<close>

definition next_answer :: "answer list \<Rightarrow> answer" where
  "next_answer fs = (case fs of [] \<Rightarrow> Answered | a # _ \<Rightarrow> a)"

text \<open>Kinds of requests, read off the log of requests.\<close>

definition is_lookup :: "call \<Rightarrow> bool" where
  "is_lookup c = (case c of ListFolders _ _ \<Rightarrow> True | _ \<Rightarrow> False)"

definition is_create_folder :: "call \<Rightarrow> bool" where
  "is_create_folder c = (case c of CreateFolder _ _ \<Rightarrow> True | _ \<Rightarrow> False)"

text \<open>The local path whose content a request uploads, if it uploads any.\<close>

definition upload_path :: "call \<Rightarrow> string option" where
  "upload_path c =
     (case c of CreateFile _ _ l \<Rightarrow> Some l | UpdateFile _ l \<Rightarrow> Some l | _ \<Rightarrow> None)"

definition uploads :: "call list \<Rightarrow> string list" where
  "uploads cs = List.map_filter upload_path cs"

text \<open>The session-record keys (paths relative to the mount directory) of the files whose
  content the requests sent so far have carried, in the order of the requests.\<close>

definition uploaded_paths :: "world \<Rightarrow> string list" where
  "uploaded_paths w = map (\<lambda>l. relpath l MOUNT_DIR) (uploads (calls w))"

text \<open>The names a directory listing can hold: not empty, without a separator, and
  neither \<^verbatim>\<open>.\<close> nor \<^verbatim>\<open>..\<close>.\<close>

definition valid_name :: "string \<Rightarrow> bool" where
  "valid_name n = (n \<noteq> [] \<and> CHR ''/'' \<notin> set n \<and> n \<noteq> ''.'' \<and> n \<noteq> ''..'')"

fun wf_tree :: "tree \<Rightarrow> bool" where
  "wf_tree File = True"
| "wf_tree (Dir entries) = list_all (\<lambda>e. valid_name (fst e) \<and> wf_tree (snd e)) entries"

text \<open>The path of the directory reached from \<open>base\<close> by going down through the names
  \<open>ds\<close>, each after a separator.\<close>

definition path_below :: "string \<Rightarrow> string list \<Rightarrow> string" where
  "path_below base ds = base @ concat (map (\<lambda>d. CHR ''/'' # d) ds)"

text \<open>The store holds a folder named \<^verbatim>\<open>notes\<close>, not trashed, directly under the configured
  root folder.\<close>

definition has_top_folder :: "world \<Rightarrow> bool" where
  "has_top_folder w = list_ex (matches True DRIVE_FOLDER_ID ''notes'') (objects w)"

text \<open>Two objects agree in everything a lookup reads: id, name, parents, the folder flag
  and the trashed flag. A world \<open>w2\<close> holds a later state of the store of \<open>w1\<close> when
  the objects of \<open>w1\<close> are still there, in their places and in that sense the same;
  contents and time stamps may differ and objects may have been added after them.\<close>

definition same_identity :: "obj \<Rightarrow> obj \<Rightarrow> bool" where
  "same_identity a b =
     (oid a = oid b \<and> oname a = oname b \<and> oparents a = oparents b
      \<and> is_folder a = is_folder b \<and> trashed a = trashed b)"

definition later_store :: "world \<Rightarrow> world \<Rightarrow> bool" where
  "later_store w1 w2 =
     (length (objects w1) \<le> length (objects w2)
      \<and> list_all2 same_identity (objects w1) (take (length (objects w1)) (objects w2)))"



section \<open>Sample states\<close>

text \<open>A store that holds the folder \<^verbatim>\<open>notes\<close> under the root, and the same store after
  \<^verbatim>\<open>notes/sub\<close> has been resolved on it.\<close>

definition store_notes :: world where
  "store_notes =
     \<lparr>objects = [\<lparr>oid = ''x1'', oname = ''notes'', oparents = [DRIVE_FOLDER_ID],
                   is_folder = True, trashed = False, media = [], modified = 0\<rparr>],
       fresh = 0, faults = [], calls = [], out = []\<rparr>"

definition store_notes_sub :: world where
  "store_notes_sub =
     \<lparr>objects = [\<lparr>oid = ''x1'', oname = ''notes'', oparents = [DRIVE_FOLDER_ID],
                   is_folder = True, trashed = False, media = [], modified = 0\<rparr>,
                 \<lparr>oid = ''n'', oname = ''sub'', oparents = [''x1''],
                   is_folder = True, trashed = False, media = [], modified = 3\<rparr>],
       fresh = 1, faults = [],
       calls = [ListFolders DRIVE_FOLDER_ID ''notes'', ListFolders ''x1'' ''sub'',
                CreateFolder ''x1'' ''sub''],
       out = []\<rparr>"

text \<open>That store after a file has been uploaded into \<^verbatim>\<open>sub\<close>.\<close>

definition store_notes_sub_data :: world where
  "store_notes_sub_data =
     \<lparr>objects = [\<lparr>oid = ''x1'', oname = ''notes'', oparents = [DRIVE_FOLDER_ID],
                   is_folder = True, trashed = False, media = [], modified = 0\<rparr>,
                 \<lparr>oid = ''n'', oname = ''sub'', oparents = [''x1''],
                   is_folder = True, trashed = False, media = [], modified = 3\<rparr>,
                 \<lparr>oid = ''ni'', oname = ''data.txt'', oparents = [''n''],
                   is_folder = False, trashed = False, media = ''ten bytes'', modified = 5\<rparr>],
       fresh = 2, faults = [],
       calls = [ListFolders DRIVE_FOLDER_ID ''notes'', ListFolders ''x1'' ''sub'',
                CreateFolder ''x1'' ''sub'', ListFiles ''n'' ''data.txt'',
                CreateFile ''n'' ''data.txt'' ''/tmp/myfs_mount/notes/sub/data.txt''],
       out = [''[UPLOAD] data.txt'']\<rparr>"

text \<open>A store with the folder \<^verbatim>\<open>notes\<close> and a file \<^verbatim>\<open>report.txt\<close> in it; the coming
  requests are answered without error, then one with an error.\<close>

definition store_report :: world where
  "store_report =
     \<lparr>objects = [\<lparr>oid = ''x1'', oname = ''notes'', oparents = [DRIVE_FOLDER_ID],
                   is_folder = True, trashed = False, media = [], modified = 0\<rparr>,
                 \<lparr>oid = ''x2'', oname = ''report.txt'', oparents = [''x1''],
                   is_folder = False, trashed = False, media = ''old'', modified = 1\<rparr>],
       fresh = 0, faults = [Answered, Answered, Refused], calls = [], out = []\<rparr>"

text \<open>A store with two folders of the same name under the root.\<close>

definition store_twins :: world where
  "store_twins =
     \<lparr>objects = [\<lparr>oid = ''x1'', oname = ''a'', oparents = [DRIVE_FOLDER_ID],
                   is_folder = True, trashed = False, media = [], modified = 0\<rparr>,
                 \<lparr>oid = ''x2'', oname = ''a'', oparents = [DRIVE_FOLDER_ID],
                   is_folder = True, trashed = False, media = [], modified = 1\<rparr>],
       fresh = 0, faults = [], calls = [], out = []\<rparr>"

text \<open>A local tree with one file under \<^verbatim>\<open>notes\<close>, which opens.\<close>

definition fs_report :: local_fs where
  "fs_report =
     \<lparr>notes_entry = Some (Dir [(''report.txt'', File)]),
       fopen = [''/tmp/myfs_mount/notes/report.txt'' \<mapsto> ''text'']\<rparr>"

text \<open>The local tree of the specification's scenario, \<^verbatim>\<open>notes/report.txt\<close> and
  \<^verbatim>\<open>notes/sub/data.txt\<close>, with both files readable, and an empty store that answers
  every request.\<close>

definition fs_scenario :: local_fs where
  "fs_scenario =
     \<lparr>notes_entry = Some (Dir [(''report.txt'', File), (''sub'', Dir [(''data.txt'', File)])]),
       fopen = [''/tmp/myfs_mount/notes/report.txt'' \<mapsto> ''fifty bytes'',
                ''/tmp/myfs_mount/notes/sub/data.txt'' \<mapsto> ''ten bytes'']\<rparr>"

definition store_empty :: world where
  "store_empty = \<lparr>objects = [], fresh = 0, faults = [], calls = [], out = []\<rparr>"

text \<open>A store in which the file \<^verbatim>\<open>report.txt\<close> of the folder \<^verbatim>\<open>notes\<close> comes after an
  object of that name under another parent, an object of another name in the folder and
  a trashed object of that name in the folder.\<close>

definition store_lookalikes :: world where
  "store_lookalikes =
     \<lparr>objects = [\<lparr>oid = ''x1'', oname = ''notes'', oparents = [DRIVE_FOLDER_ID],
                   is_folder = True, trashed = False, media = [], modified = 0\<rparr>,
                 \<lparr>oid = ''y1'', oname = ''report.txt'', oparents = [''elsewhere''],
                   is_folder = False, trashed = False, media = ''other'', modified = 1\<rparr>,
                 \<lparr>oid = ''y2'', oname = ''summary.txt'', oparents = [''x1''],
                   is_folder = False, trashed = False, media = ''sum'', modified = 2\<rparr>,
                 \<lparr>oid = ''y3'', oname = ''report.txt'', oparents = [''x1''],
                   is_folder = False, trashed = True, media = ''gone'', modified = 3\<rparr>,
                 \<lparr>oid = ''x2'', oname = ''report.txt'', oparents = [''x1''],
                   is_folder = False, trashed = False, media = ''old'', modified = 4\<rparr>],
       fresh = 0, faults = [], calls = [], out = []\<rparr>"

text \<open>A store with two folders \<^verbatim>\<open>a\<close> under the root that come after a plain file of that
  name under the root, a folder of that name under another parent, a trashed folder of
  that name under the root and a folder of another name under the root.\<close>

definition store_folders :: world where
  "store_folders =
     \<lparr>objects = [\<lparr>oid = ''f1'', oname = ''a'', oparents = [DRIVE_FOLDER_ID],
                   is_folder = False, trashed = False, media = ''a file'', modified = 0\<rparr>,
                 \<lparr>oid = ''f2'', oname = ''a'', oparents = [''elsewhere''],
                   is_folder = True, trashed = False, media = [], modified = 1\<rparr>,
                 \<lparr>oid = ''f3'', oname = ''a'', oparents = [DRIVE_FOLDER_ID],
                   is_folder = True, trashed = True, media = [], modified = 2\<rparr>,
                 \<lparr>oid = ''f4'', oname = ''b'', oparents = [DRIVE_FOLDER_ID],
                   is_folder = True, trashed = False, media = [], modified = 3\<rparr>,
                 \<lparr>oid = ''x1'', oname = ''a'', oparents = [DRIVE_FOLDER_ID],
                   is_folder = True, trashed = False, media = [], modified = 4\<rparr>,
                 \<lparr>oid = ''x2'', oname = ''a'', oparents = [DRIVE_FOLDER_ID],
                   is_folder = True, trashed = False, media = [], modified = 5\<rparr>],
       fresh = 0, faults = [], calls = [], out = []\<rparr>"


section \<open>Facts about the store requests and the folder walk\<close>

lemma execute_eq:
  "execute c w =
     (case next_answer (faults w) of
        Answered \<Rightarrow> (None, w\<lparr>calls := calls w @ [c], faults := tl (faults w)\<rparr>)
      | Refused \<Rightarrow> (Some HttpError, w\<lparr>calls := calls w @ [c], faults := tl (faults w)\<rparr>)
      | Lost \<Rightarrow> (Some TransportError, w\<lparr>faults := tl (faults w)\<rparr>))"
  by (cases "faults w") (simp_all add: execute_def next_answer_def split: answer.splits)

lemma next_answer_Nil [simp]: "next_answer [] = Answered"
  by (simp add: next_answer_def)

lemma first_of_filter:
  "(case filter P xs of [] \<Rightarrow> None | f # _ \<Rightarrow> Some f) = List.find P xs"
  by (induction xs) auto

lemma find_app:
  "List.find P (xs @ ys) = (case List.find P xs of Some f \<Rightarrow> Some f | None \<Rightarrow> List.find P ys)"
  by (induction xs) auto

lemma find_SomeD: "List.find P xs = Some f \<Longrightarrow> f \<in> set xs \<and> P f"
  by (induction xs) (auto split: if_splits)

text \<open>Each request of the source, by what becomes of it.\<close>

lemma files_list_eq:
  "files_list fo parent name w =
     (if \<not> utf8_ok name then (Inl UnicodeEncodeError, w)
      else
        (case next_answer (faults w) of
           Lost \<Rightarrow> (Inl TransportError, w\<lparr>faults := tl (faults w)\<rparr>)
         | Refused \<Rightarrow>
             (Inl HttpError,
              w\<lparr>calls := calls w @ [(if fo then ListFolders else ListFiles) parent name],
                faults := tl (faults w)\<rparr>)
         | Answered \<Rightarrow>
             (if literal_ok name then Inr (filter (matches fo parent name) (objects w))
              else Inl HttpError,
              w\<lparr>calls := calls w @ [(if fo then ListFolders else ListFiles) parent name],
                faults := tl (faults w)\<rparr>)))"
  by (simp add: files_list_def execute_eq split: answer.splits)

lemma find_child_folder_eq:
  "find_child_folder w parent name =
     (if \<not> utf8_ok name then (Inl UnicodeEncodeError, w)
      else
        (case next_answer (faults w) of
           Lost \<Rightarrow> (Inl TransportError, w\<lparr>faults := tl (faults w)\<rparr>)
         | Refused \<Rightarrow>
             (Inl HttpError,
              w\<lparr>calls := calls w @ [ListFolders parent name], faults := tl (faults w)\<rparr>)
         | Answered \<Rightarrow>
             (if literal_ok name
              then Inr (map_option oid (List.find (matches True parent name) (objects w)))
              else Inl HttpError,
              w\<lparr>calls := calls w @ [ListFolders parent name], faults := tl (faults w)\<rparr>)))"
  by (simp add: find_child_folder_def files_list_eq first_of_filter [symmetric]
        split: list.splits answer.splits)

lemma find_drive_file_eq:
  "find_drive_file w parent name =
     (if \<not> utf8_ok name then (Inl UnicodeEncodeError, w)
      else
        (case next_answer (faults w) of
           Lost \<Rightarrow> (Inl TransportError, w\<lparr>faults := tl (faults w)\<rparr>)
         | Refused \<Rightarrow>
             (Inl HttpError,
              w\<lparr>calls := calls w @ [ListFiles parent name], faults := tl (faults w)\<rparr>)
         | Answered \<Rightarrow>
             (if literal_ok name
              then Inr (List.find (matches False parent name) (objects w))
              else Inl HttpError,
              w\<lparr>calls := calls w @ [ListFiles parent name], faults := tl (faults w)\<rparr>)))"
  by (simp add: find_drive_file_def files_list_eq first_of_filter [symmetric]
        split: list.splits answer.splits)

lemma files_create_eq:
  "files_create c parent name folder content w =
     (case next_answer (faults w) of
        Lost \<Rightarrow> (Inl TransportError, w\<lparr>faults := tl (faults w)\<rparr>)
      | Refused \<Rightarrow> (Inl HttpError, w\<lparr>calls := calls w @ [c], faults := tl (faults w)\<rparr>)
      | Answered \<Rightarrow>
          (Inr (new_id (fresh w)),
           w\<lparr>calls := calls w @ [c], faults := tl (faults w),
             objects := objects w @ [\<lparr>oid = new_id (fresh w), oname = name, oparents = [parent],
                       is_folder = folder, trashed = False, media = content,
                       modified = Suc (length (calls w))\<rparr>],
             fresh := Suc (fresh w)\<rparr>))"
  by (simp add: files_create_def execute_eq split: answer.splits)

lemma create_folder_eq:
  "create_folder w parent name =
     (case next_answer (faults w) of
        Lost \<Rightarrow> (Inl TransportError, w\<lparr>faults := tl (faults w)\<rparr>)
      | Refused \<Rightarrow>
          (Inl HttpError,
           w\<lparr>calls := calls w @ [CreateFolder parent name], faults := tl (faults w)\<rparr>)
      | Answered \<Rightarrow>
          (Inr (new_id (fresh w)),
           w\<lparr>calls := calls w @ [CreateFolder parent name], faults := tl (faults w),
             objects := objects w @ [\<lparr>oid = new_id (fresh w), oname = name, oparents = [parent],
                       is_folder = True, trashed = False, media = [],
                       modified = Suc (length (calls w))\<rparr>],
             fresh := Suc (fresh w)\<rparr>))"
  by (simp add: create_folder_def files_create_eq)

lemma files_update_eq:
  "files_update file_id local_path content w =
     (case next_answer (faults w) of
        Lost \<Rightarrow> (Inl TransportError, w\<lparr>faults := tl (faults w)\<rparr>)
      | Refused \<Rightarrow>
          (Inl HttpError,
           w\<lparr>calls := calls w @ [UpdateFile file_id local_path], faults := tl (faults w)\<rparr>)
      | Answered \<Rightarrow>
          (if file_id \<notin> oid ` set (objects w)
           then (Inl HttpError,
                 w\<lparr>calls := calls w @ [UpdateFile file_id local_path], faults := tl (faults w)\<rparr>)
           else (Inr file_id,
                 w\<lparr>calls := calls w @ [UpdateFile file_id local_path], faults := tl (faults w),
                   objects := map (\<lambda>ob. if oid ob = file_id
                                    then ob\<lparr>media := content, modified := Suc (length (calls w))\<rparr>
                                    else ob) (objects w)\<rparr>)))"
  by (simp add: files_update_def execute_eq split: answer.splits)

text \<open>What the requests leave as it is.\<close>

lemma find_child_folder_frame:
  "find_child_folder w parent name = (r, w') \<Longrightarrow>
     objects w' = objects w \<and> fresh w' = fresh w \<and> out w' = out w
     \<and> (calls w' = calls w \<or> calls w' = calls w @ [ListFolders parent name])"
  by (auto simp: find_child_folder_eq split: if_splits answer.splits)

lemma find_drive_file_frame:
  "find_drive_file w parent name = (r, w') \<Longrightarrow>
     objects w' = objects w \<and> fresh w' = fresh w \<and> out w' = out w
     \<and> (calls w' = calls w \<or> calls w' = calls w @ [ListFiles parent name])"
  by (auto simp: find_drive_file_eq split: if_splits answer.splits)

lemma files_create_frame:
  "files_create c parent name folder content w = (r, w') \<Longrightarrow>
     out w' = out w
     \<and> (objects w' = objects w
          \<or> (r = Inr (new_id (fresh w)) \<and> objects w' = objects w @
                [\<lparr>oid = new_id (fresh w), oname = name, oparents = [parent],
                  is_folder = folder, trashed = False, media = content,
                  modified = Suc (length (calls w))\<rparr>]))
     \<and> (calls w' = calls w \<or> calls w' = calls w @ [c])"
  by (auto simp: files_create_eq split: answer.splits)

lemma files_update_frame:
  "files_update i l c w = (r, w') \<Longrightarrow>
     out w' = out w
     \<and> (objects w' = objects w
          \<or> objects w' = map (\<lambda>ob. if oid ob = i
                                 then ob\<lparr>media := c, modified := Suc (length (calls w))\<rparr>
                                 else ob) (objects w))
     \<and> (calls w' = calls w \<or> calls w' = calls w @ [UpdateFile i l])"
  by (auto simp: files_update_eq split: answer.splits if_splits)

lemma new_id_nonempty: "new_id n \<noteq> []"
  by (simp add: new_id_def)

text \<open>One step of the loop, as a case distinction.\<close>

lemma ensure_loop_Cons_cases:
  assumes "ensure_loop (p # parts) parent w = (Inr i, w1)"
  obtains (found) f where "List.find (matches True parent p) (objects w) = Some f" "oid f \<noteq> []"
      "literal_ok p" "utf8_ok p"
      "ensure_loop parts (oid f) (w\<lparr>calls := calls w @ [ListFolders parent p], faults := tl (faults w)\<rparr>) = (Inr i, w1)"
  | (created) "\<not> truthy (map_option oid (List.find (matches True parent p) (objects w)))"
      "literal_ok p" "utf8_ok p"
      "ensure_loop parts (new_id (fresh w))
         (w\<lparr>calls := calls w @ [ListFolders parent p, CreateFolder parent p], faults := tl (tl (faults w)),
              objects := objects w @ [\<lparr>oid = new_id (fresh w), oname = p, oparents = [parent],
                        is_folder = True, trashed = False, media = [],
                        modified = Suc (Suc (length (calls w)))\<rparr>],
              fresh := Suc (fresh w)\<rparr>) = (Inr i, w1)"
  using assms
  by (auto simp: find_child_folder_eq create_folder_eq truthy_def
        split: if_splits option.splits answer.splits)

lemma ensure_loop_objects:
  "ensure_loop parts parent w = (r, w1) \<Longrightarrow>
     \<exists>ys. objects w1 = objects w @ ys \<and> (\<forall>ob\<in>set ys. oid ob \<noteq> [])"
proof (induction parts arbitrary: parent w)
  case Nil
  then show ?case by simp
next
  case (Cons p parts)
  obtain r0 w0 where f: "find_child_folder w parent p = (r0, w0)"
    by (cases "find_child_folder w parent p")
  then have o0: "objects w0 = objects w"
    by (simp add: find_child_folder_frame)
  show ?case
  proof (cases r0)
    case (Inl e)
    with f Cons.prems o0 show ?thesis by auto
  next
    case (Inr found)
    show ?thesis
    proof (cases "truthy found")
      case True
      with f Inr Cons.prems have "ensure_loop parts (the found) w0 = (r, w1)" by simp
      from Cons.IH [OF this] o0 show ?thesis by simp
    next
      case False
      obtain r2 w2 where c: "create_folder w0 parent p = (r2, w2)"
        by (cases "create_folder w0 parent p")
      then have o2: "\<exists>ys. objects w2 = objects w0 @ ys \<and> (\<forall>ob\<in>set ys. oid ob \<noteq> [])"
        by (auto simp: create_folder_eq new_id_nonempty split: answer.splits)
      show ?thesis
      proof (cases r2)
        case (Inl e)
        with f Inr False c Cons.prems o0 o2 show ?thesis by auto
      next
        case (Inr j)
        with f \<open>r0 = Inr found\<close> False c Cons.prems have "ensure_loop parts j w2 = (r, w1)" by simp
        from Cons.IH [OF this] o0 o2 show ?thesis by auto
      qed
    qed
  qed
qed

lemma is_lookup_ListFolders: "is_lookup (ListFolders a b)"
  by (simp add: is_lookup_def)

lemma world_faults_same: "faults w = fs \<Longrightarrow> w\<lparr>faults := fs\<rparr> = w"
  by auto

lemma ensure_loop_creations:
  "ensure_loop parts parent w = (r, w1) \<Longrightarrow>
     \<exists>cs. calls w1 = calls w @ cs \<and> length (filter is_create_folder cs) \<le> length parts"
proof (induction parts arbitrary: parent w)
  case Nil
  then show ?case by simp
next
  case (Cons p parts)
  obtain r0 w0 where f: "find_child_folder w parent p = (r0, w0)" by (cases "find_child_folder w parent p")
  then have c0: "calls w0 = calls w \<or> calls w0 = calls w @ [ListFolders parent p]"
    by (simp add: find_child_folder_frame)
  show ?case
  proof (cases r0)
    case (Inl e)
    with f Cons.prems c0 show ?thesis by (auto simp: is_create_folder_def)
  next
    case (Inr found)
    show ?thesis
    proof (cases "truthy found")
      case True
      with f Inr Cons.prems have "ensure_loop parts (the found) w0 = (r, w1)" by simp
      from Cons.IH [OF this] c0 show ?thesis by (auto simp: is_create_folder_def)
    next
      case False
      obtain r2 w2 where c: "create_folder w0 parent p = (r2, w2)" by (cases "create_folder w0 parent p")
      then have c2: "calls w2 = calls w0 \<or> calls w2 = calls w0 @ [CreateFolder parent p]"
        by (auto simp: create_folder_eq split: answer.splits)
      show ?thesis
      proof (cases r2)
        case (Inl e)
        with f Inr False c Cons.prems c0 c2 show ?thesis by (auto simp: is_create_folder_def)
      next
        case (Inr j)
        with f \<open>r0 = Inr found\<close> False c Cons.prems have "ensure_loop parts j w2 = (r, w1)" by simp
        from Cons.IH [OF this] c0 c2 show ?thesis by (auto simp: is_create_folder_def)
      qed
    qed
  qed
qed

lemma quiet1:
  "list_all (\<lambda>a. a = Answered) (take (Suc 0) fs) \<longleftrightarrow> next_answer fs = Answered"
  by (cases fs) (auto simp: next_answer_def)



text \<open>The lookups in the words of the queries: what \<open>matches\<close> selects.\<close>

lemma matches_folder:
  "matches True parent name =
     (\<lambda>ob. is_folder ob \<and> \<not> trashed ob \<and> parent \<in> set (oparents ob) \<and> oname ob = name)"
  by (auto simp: matches_def fun_eq_iff)

lemma matches_any:
  "matches False parent name =
     (\<lambda>ob. \<not> trashed ob \<and> parent \<in> set (oparents ob) \<and> oname ob = name)"
  by (auto simp: matches_def fun_eq_iff)

section \<open>Facts about printing and about errors in the upload step\<close>

lemma ensure_loop_out: "ensure_loop parts parent w = (r, w1) \<Longrightarrow> out w1 = out w"
proof (induction parts arbitrary: parent w)
  case Nil
  then show ?case by simp
next
  case (Cons p parts)
  obtain r0 w0 where f: "find_child_folder w parent p = (r0, w0)"
    by (cases "find_child_folder w parent p")
  then have o0: "out w0 = out w"
    by (simp add: find_child_folder_frame)
  show ?case
  proof (cases r0)
    case (Inl e)
    with f Cons.prems o0 show ?thesis by auto
  next
    case (Inr found)
    show ?thesis
    proof (cases "truthy found")
      case True
      with f Inr Cons.prems have "ensure_loop parts (the found) w0 = (r, w1)" by simp
      from Cons.IH [OF this] o0 show ?thesis by simp
    next
      case False
      obtain r2 w2 where c: "create_folder w0 parent p = (r2, w2)"
        by (cases "create_folder w0 parent p")
      then have o2: "out w2 = out w0"
        by (auto simp: create_folder_eq split: answer.splits)
      show ?thesis
      proof (cases r2)
        case (Inl e)
        with f Inr False c Cons.prems o0 o2 show ?thesis by auto
      next
        case (Inr j)
        with f \<open>r0 = Inr found\<close> False c Cons.prems have "ensure_loop parts j w2 = (r, w1)" by simp
        from Cons.IH [OF this] o0 o2 show ?thesis by auto
      qed
    qed
  qed
qed

lemma ensure_drive_path_out: "ensure_drive_path w d = (r, w1) \<Longrightarrow> out w1 = out w"
  by (auto simp: ensure_drive_path_def split: if_splits dest: ensure_loop_out)

text \<open>An exception that leaves \<^verbatim>\<open>upload_or_update\<close> is never an \<^verbatim>\<open>HttpError\<close>, and up to
  then nothing has been printed, stored or uploaded.\<close>

lemma upload_or_update_Inl:
  "upload_or_update w opn local_path parent name = (Inl e, w2) \<Longrightarrow>
     e \<noteq> HttpError \<and> out w2 = out w \<and> objects w2 = objects w
     \<and> (calls w2 = calls w \<or> calls w2 = calls w @ [ListFiles parent name])"
  by (auto simp: upload_or_update_def except_HttpError_def find_drive_file_eq files_create_eq
        files_update_eq split: option.splits if_splits answer.splits)




section \<open>The folder walk and the walk of the specification\<close>





section \<open>The session sync record and the uploads sent\<close>

lemma uploads_append: "uploads (a @ b) = uploads a @ uploads b"
  by (induction a) (simp_all add: uploads_def map_filter_simps split: option.splits)

lemma uploads_simps:
  "uploads [] = []"
  "uploads (ListFolders p n # cs) = uploads cs"
  "uploads (ListFiles p n # cs) = uploads cs"
  "uploads (CreateFolder p n # cs) = uploads cs"
  "uploads (CreateFile p n l # cs) = l # uploads cs"
  "uploads (UpdateFile i l # cs) = l # uploads cs"
  by (simp_all add: uploads_def map_filter_simps upload_path_def)

lemma ensure_loop_uploads:
  "ensure_loop parts parent w = (r, w1) \<Longrightarrow> uploads (calls w1) = uploads (calls w)"
proof (induction parts arbitrary: parent w)
  case Nil
  then show ?case by simp
next
  case (Cons p parts)
  obtain r0 w0 where f: "find_child_folder w parent p = (r0, w0)"
    by (cases "find_child_folder w parent p")
  then have o0: "uploads (calls w0) = uploads (calls w)"
    by (auto simp: find_child_folder_eq uploads_append uploads_simps split: if_splits answer.splits)
  show ?case
  proof (cases r0)
    case (Inl e)
    with f Cons.prems o0 show ?thesis by auto
  next
    case (Inr found)
    show ?thesis
    proof (cases "truthy found")
      case True
      with f Inr Cons.prems have "ensure_loop parts (the found) w0 = (r, w1)" by simp
      from Cons.IH [OF this] o0 show ?thesis by simp
    next
      case False
      obtain r2 w2 where c: "create_folder w0 parent p = (r2, w2)"
        by (cases "create_folder w0 parent p")
      then have o2: "uploads (calls w2) = uploads (calls w0)"
        by (auto simp: create_folder_eq uploads_append uploads_simps split: answer.splits)
      show ?thesis
      proof (cases r2)
        case (Inl e)
        with f Inr False c Cons.prems o0 o2 show ?thesis by auto
      next
        case (Inr j)
        with f \<open>r0 = Inr found\<close> False c Cons.prems have "ensure_loop parts j w2 = (r, w1)" by simp
        from Cons.IH [OF this] o0 o2 show ?thesis by auto
      qed
    qed
  qed
qed

lemma ensure_drive_path_uploads:
  "ensure_drive_path w d = (r, w1) \<Longrightarrow> uploads (calls w1) = uploads (calls w)"
  by (auto simp: ensure_drive_path_def split: if_splits dest: ensure_loop_uploads)

lemma upload_or_update_uploads:
  "upload_or_update w opn local_path parent name = (r, w2) \<Longrightarrow>
     uploads (calls w2) = uploads (calls w)
     \<or> (r = Inr () \<and> uploads (calls w2) = uploads (calls w) @ [local_path])"
  by (auto simp: upload_or_update_def except_HttpError_def find_drive_file_eq files_create_eq
        files_update_eq uploads_append uploads_simps print_line_def
        split: option.splits if_splits answer.splits)

lemma sync_file_inv:
  assumes "sync_file opn root fname w up = (r, w', up')"
    and "distinct (uploaded_paths w)" and "set (uploaded_paths w) \<subseteq> up"
  shows "distinct (uploaded_paths w') \<and> set (uploaded_paths w') \<subseteq> up' \<and> up \<subseteq> up'"
proof (cases "relpath (os_path_join root fname) MOUNT_DIR \<in> up")
  case True
  with assms show ?thesis by (simp add: sync_file_def)
next
  case False
  let ?local = "os_path_join root fname"
  let ?rel = "relpath ?local MOUNT_DIR"
  obtain r1 w1 where e: "ensure_drive_path w (dirname ?rel) = (r1, w1)"
    by (cases "ensure_drive_path w (dirname ?rel)")
  then have u1: "uploaded_paths w1 = uploaded_paths w"
    by (simp add: uploaded_paths_def ensure_drive_path_uploads)
  show ?thesis
  proof (cases r1)
    case (Inl x)
    with assms False e u1 show ?thesis by (auto simp: sync_file_def)
  next
    case (Inr parent)
    obtain r2 w2 where u: "upload_or_update w1 opn ?local parent fname = (r2, w2)"
      by (cases "upload_or_update w1 opn ?local parent fname")
    from upload_or_update_uploads [OF u]
    consider (same) "uploaded_paths w2 = uploaded_paths w1"
      | (more) "r2 = Inr ()" "uploaded_paths w2 = uploaded_paths w1 @ [?rel]"
      by (auto simp: uploaded_paths_def)
    then show ?thesis
    proof cases
      case same
      with assms False e Inr u u1 show ?thesis
        by (cases r2) (auto simp: sync_file_def)
    next
      case more
      with assms False e Inr u u1 show ?thesis
        by (auto simp: sync_file_def)
    qed
  qed
qed

lemma sync_files_inv:
  "sync_files opn root files w up = (r, w', up') \<Longrightarrow>
   distinct (uploaded_paths w) \<Longrightarrow> set (uploaded_paths w) \<subseteq> up \<Longrightarrow>
   distinct (uploaded_paths w') \<and> set (uploaded_paths w') \<subseteq> up' \<and> up \<subseteq> up'"
proof (induction files arbitrary: w up)
  case Nil
  then show ?case by simp
next
  case (Cons fname files)
  obtain r1 w1 up1 where s: "sync_file opn root fname w up = (r1, w1, up1)"
    by (cases "sync_file opn root fname w up")
  from sync_file_inv [OF s Cons.prems(2,3)]
  have inv: "distinct (uploaded_paths w1)" "set (uploaded_paths w1) \<subseteq> up1" "up \<subseteq> up1"
    by simp_all
  show ?case
  proof (cases r1)
    case (Inl e)
    with s Cons.prems(1) inv show ?thesis by auto
  next
    case (Inr u)
    with s Cons.prems(1) have "sync_files opn root files w1 up1 = (r, w', up')" by simp
    from Cons.IH [OF this inv(1,2)] inv(3) show ?thesis by auto
  qed
qed

lemma sync_walk_inv:
  "sync_walk opn walk w up = (r, w', up') \<Longrightarrow>
   distinct (uploaded_paths w) \<Longrightarrow> set (uploaded_paths w) \<subseteq> up \<Longrightarrow>
   distinct (uploaded_paths w') \<and> set (uploaded_paths w') \<subseteq> up' \<and> up \<subseteq> up'"
proof (induction walk arbitrary: w up)
  case Nil
  then show ?case by simp
next
  case (Cons entry walk)
  obtain root dirs files where entry: "entry = (root, dirs, files)" by (cases entry)
  obtain r1 w1 up1 where s: "sync_files opn root files w up = (r1, w1, up1)"
    by (cases "sync_files opn root files w up")
  from sync_files_inv [OF s Cons.prems(2,3)]
  have inv: "distinct (uploaded_paths w1)" "set (uploaded_paths w1) \<subseteq> up1" "up \<subseteq> up1"
    by simp_all
  show ?case
  proof (cases r1)
    case (Inl e)
    with s entry Cons.prems(1) inv show ?thesis by auto
  next
    case (Inr u)
    with s entry Cons.prems(1) have "sync_walk opn walk w1 up1 = (r, w', up')" by simp
    from Cons.IH [OF this inv(1,2)] inv(3) show ?thesis by auto
  qed
qed

lemma scan_and_sync_inv:
  "scan_and_sync fs w up = (r, w', up') \<Longrightarrow>
   distinct (uploaded_paths w) \<Longrightarrow> set (uploaded_paths w) \<subseteq> up \<Longrightarrow>
   distinct (uploaded_paths w') \<and> set (uploaded_paths w') \<subseteq> up' \<and> up \<subseteq> up'"
  by (cases "notes_entry fs") (auto simp: scan_and_sync_def dest!: sync_walk_inv)

lemma daemon_loop_inv:
  "daemon_loop cycles w up = (r, w', up') \<Longrightarrow>
   distinct (uploaded_paths w) \<Longrightarrow> set (uploaded_paths w) \<subseteq> up \<Longrightarrow>
   distinct (uploaded_paths w') \<and> set (uploaded_paths w') \<subseteq> up' \<and> up \<subseteq> up'"
proof (induction cycles arbitrary: w up)
  case Nil
  then show ?case by simp
next
  case (Cons fs cycles)
  obtain r1 w1 up1 where s: "scan_and_sync fs w up = (r1, w1, up1)"
    by (cases "scan_and_sync fs w up")
  from scan_and_sync_inv [OF s Cons.prems(2,3)]
  have inv: "distinct (uploaded_paths w1)" "set (uploaded_paths w1) \<subseteq> up1" "up \<subseteq> up1"
    by simp_all
  show ?case
  proof (cases r1)
    case (Inl e)
    with s Cons.prems(1) inv show ?thesis by auto
  next
    case (Inr u)
    with s Cons.prems(1) have "daemon_loop cycles w1 up1 = (r, w', up')" by simp
    from Cons.IH [OF this inv(1,2)] inv(3) show ?thesis by auto
  qed
qed


text \<open>The record only grows, whatever the request log holds.\<close>

lemma sync_file_grows:
  "sync_file opn root fname w up = (r, w', up') \<Longrightarrow> up \<subseteq> up'"
  by (auto simp: sync_file_def Let_def split: if_splits prod.splits sum.splits)

lemma sync_files_grows:
  "sync_files opn root files w up = (r, w', up') \<Longrightarrow> up \<subseteq> up'"
proof (induction files arbitrary: w up)
  case Nil
  then show ?case by simp
next
  case (Cons fname files)
  obtain r1 w1 up1 where s: "sync_file opn root fname w up = (r1, w1, up1)"
    by (cases "sync_file opn root fname w up")
  then have g: "up \<subseteq> up1" by (rule sync_file_grows)
  show ?case
  proof (cases r1)
    case (Inl e)
    with s Cons.prems g show ?thesis by auto
  next
    case (Inr u)
    with s Cons.prems have "sync_files opn root files w1 up1 = (r, w', up')" by simp
    from Cons.IH [OF this] g show ?thesis by blast
  qed
qed

lemma sync_walk_grows:
  "sync_walk opn walk w up = (r, w', up') \<Longrightarrow> up \<subseteq> up'"
proof (induction walk arbitrary: w up)
  case Nil
  then show ?case by simp
next
  case (Cons entry walk)
  obtain root dirs files where entry: "entry = (root, dirs, files)" by (cases entry)
  obtain r1 w1 up1 where s: "sync_files opn root files w up = (r1, w1, up1)"
    by (cases "sync_files opn root files w up")
  then have g: "up \<subseteq> up1" by (rule sync_files_grows)
  show ?case
  proof (cases r1)
    case (Inl e)
    with s entry Cons.prems g show ?thesis by auto
  next
    case (Inr u)
    with s entry Cons.prems have "sync_walk opn walk w1 up1 = (r, w', up')" by simp
    from Cons.IH [OF this] g show ?thesis by blast
  qed
qed

lemma scan_and_sync_grows:
  "scan_and_sync fs w up = (r, w', up') \<Longrightarrow> up \<subseteq> up'"
  by (cases "notes_entry fs") (auto simp: scan_and_sync_def dest!: sync_walk_grows)

lemma daemon_loop_grows:
  "daemon_loop cycles w up = (r, w', up') \<Longrightarrow> up \<subseteq> up'"
proof (induction cycles arbitrary: w up)
  case Nil
  then show ?case by simp
next
  case (Cons fs cycles)
  obtain r1 w1 up1 where s: "scan_and_sync fs w up = (r1, w1, up1)"
    by (cases "scan_and_sync fs w up")
  then have g: "up \<subseteq> up1" by (rule scan_and_sync_grows)
  show ?case
  proof (cases r1)
    case (Inl e)
    with s Cons.prems g show ?thesis by auto
  next
    case (Inr u)
    with s Cons.prems have "daemon_loop cycles w1 up1 = (r, w', up')" by simp
    from Cons.IH [OF this] g show ?thesis by blast
  qed
qed

section \<open>Paths of the files that the walk finds\<close>

lemma split_sep_nonempty: "split_sep s \<noteq> []"
  by (induction s) (auto split: list.splits)

lemma split_sep_no_sep: "CHR ''/'' \<notin> set n \<Longrightarrow> split_sep n = [n]"
  by (induction n) auto

lemma split_sep_at_sep: "split_sep (a @ CHR ''/'' # b) = split_sep a @ split_sep b"
proof (induction a)
  case Nil
  show ?case by simp
next
  case (Cons c cs)
  then show ?case
    using split_sep_nonempty [of cs] by (cases "split_sep cs") auto
qed

lemma path_below_Nil: "path_below base [] = base"
  by (simp add: path_below_def)

lemma path_below_Cons: "path_below base (d # ds) = path_below (base @ CHR ''/'' # d) ds"
  by (simp add: path_below_def)

lemma path_below_snoc: "path_below base (ds @ [d]) = path_below base ds @ CHR ''/'' # d"
  by (simp add: path_below_def)

lemma path_below_prefix: "a @ path_below base ds = path_below (a @ base) ds"
  by (simp add: path_below_def)

lemma valid_name_no_sep: "valid_name n \<Longrightarrow> CHR ''/'' \<notin> set n"
  by (simp add: valid_name_def)

lemma split_sep_path_below:
  "list_all valid_name ds \<Longrightarrow> split_sep (path_below base ds) = split_sep base @ ds"
proof (induction ds arbitrary: base)
  case Nil
  show ?case by (simp add: path_below_Nil)
next
  case (Cons d ds)
  then show ?case
    by (simp add: path_below_Cons split_sep_at_sep split_sep_no_sep valid_name_no_sep)
qed

lemma foldl_norm_step_valid:
  "list_all valid_name ns \<Longrightarrow> foldl norm_step acc ns = acc @ ns"
  by (induction ns arbitrary: acc) (auto simp: norm_step_def valid_name_def)

lemma os_path_join_valid:
  "a \<noteq> [] \<Longrightarrow> last a \<noteq> CHR ''/'' \<Longrightarrow> valid_name n \<Longrightarrow> os_path_join a n = a @ CHR ''/'' # n"
  by (cases n) (auto simp: os_path_join_def valid_name_def)

lemma path_below_end:
  "base \<noteq> [] \<Longrightarrow> last base \<noteq> CHR ''/'' \<Longrightarrow> list_all valid_name ds \<Longrightarrow>
     path_below base ds \<noteq> [] \<and> last (path_below base ds) \<noteq> CHR ''/''"
proof (induction ds arbitrary: base)
  case Nil
  then show ?case by (simp add: path_below_Nil)
next
  case (Cons d ds)
  from Cons.prems have d: "d \<noteq> []" "CHR ''/'' \<notin> set d" by (simp_all add: valid_name_def)
  then have "last d \<noteq> CHR ''/''" using last_in_set [of d] by metis
  with d Cons.prems show ?case
    by (simp add: path_below_Cons Cons.IH)
qed

lemma foldl_join_valid:
  "base \<noteq> [] \<Longrightarrow> last base \<noteq> CHR ''/'' \<Longrightarrow> list_all valid_name ns \<Longrightarrow>
     foldl os_path_join base ns = path_below base ns"
proof (induction ns arbitrary: base)
  case Nil
  show ?case by (simp add: path_below_Nil)
next
  case (Cons n ns)
  from Cons.prems have n: "n \<noteq> []" "CHR ''/'' \<notin> set n" by (simp_all add: valid_name_def)
  then have "last n \<noteq> CHR ''/''" using last_in_set [of n] by metis
  with n Cons.prems show ?case
    by (simp add: path_below_Cons os_path_join_valid Cons.IH)
qed

lemma os_walk_roots:
  "wf_tree t \<Longrightarrow> dirpath \<noteq> [] \<Longrightarrow> last dirpath \<noteq> CHR ''/'' \<Longrightarrow>
   (root, dirs, files) \<in> set (os_walk dirpath t) \<Longrightarrow>
   \<exists>ds. list_all valid_name ds \<and> root = path_below dirpath ds \<and> list_all valid_name files"
proof (induction dirpath t arbitrary: root dirs files rule: os_walk.induct)
  case (1 dirpath)
  then show ?case by simp
next
  case (2 dirpath entries)
  from "2.prems"(1) have wf: "\<forall>e\<in>set entries. valid_name (fst e) \<and> wf_tree (snd e)"
    by (simp add: list_all_iff)
  from "2.prems"(4) consider
      (here) "root = dirpath" "files = map fst (filter (\<lambda>e. \<not> is_dir (snd e)) entries)"
    | (deeper) e where "e \<in> set entries" "is_dir (snd e)"
        "(root, dirs, files) \<in> set (os_walk (os_path_join dirpath (fst e)) (snd e))"
    by auto
  then show ?case
  proof cases
    case here
    have "list_all valid_name files"
      using wf here(2) by (auto simp: list_all_iff)
    with here(1) show ?thesis
      by (intro exI [of _ "[]"]) (simp add: path_below_Nil)
  next
    case (deeper e)
    from wf deeper(1) have v: "valid_name (fst e)" and w: "wf_tree (snd e)" by auto
    have j: "os_path_join dirpath (fst e) = dirpath @ CHR ''/'' # fst e"
      using "2.prems"(2,3) v by (rule os_path_join_valid)
    from v have "fst e \<noteq> []" "CHR ''/'' \<notin> set (fst e)" by (simp_all add: valid_name_def)
    then have l: "last (fst e) \<noteq> CHR ''/''" using last_in_set [of "fst e"] by metis
    have "\<exists>ds. list_all valid_name ds \<and> root = path_below (os_path_join dirpath (fst e)) ds
             \<and> list_all valid_name files"
    proof (rule "2.IH")
      show "e \<in> set (filter (\<lambda>e. is_dir (snd e)) entries)" using deeper(1,2) by simp
      show "wf_tree (snd e)" by (rule w)
      show "os_path_join dirpath (fst e) \<noteq> []" by (simp add: j)
      show "last (os_path_join dirpath (fst e)) \<noteq> CHR ''/''"
        using \<open>fst e \<noteq> []\<close> l by (simp add: j)
      show "(root, dirs, files) \<in> set (os_walk (os_path_join dirpath (fst e)) (snd e))"
        by (rule deeper(3))
    qed
    then obtain ds where ds: "list_all valid_name ds"
      "root = path_below (os_path_join dirpath (fst e)) ds" "list_all valid_name files"
      by blast
    show ?thesis
      by (intro exI [of _ "fst e # ds"]) (simp add: ds v j path_below_Cons)
  qed
qed

lemma notes_dir_eq: "os_path_join MOUNT_DIR ''notes'' = ''/tmp/myfs_mount/notes''"
  by (simp add: os_path_join_def MOUNT_DIR_def)

lemma abs_comps_below_notes:
  "list_all valid_name ns \<Longrightarrow>
     abs_comps (path_below ''/tmp/myfs_mount/notes'' ns) = [''tmp'', ''myfs_mount'', ''notes''] @ ns"
  by (simp add: abs_comps_def split_sep_path_below foldl_norm_step_valid norm_step_def)

lemma abs_comps_mount: "abs_comps MOUNT_DIR = [''tmp'', ''myfs_mount'']"
  by (simp add: abs_comps_def MOUNT_DIR_def norm_step_def)

lemma relpath_below_notes:
  assumes "list_all valid_name ns" and "ns \<noteq> []"
  shows "relpath (path_below ''/tmp/myfs_mount/notes'' ns) MOUNT_DIR = path_below ''notes'' ns"
proof -
  have "foldl os_path_join ''notes'' ns = path_below ''notes'' ns"
    using assms(1) by (intro foldl_join_valid) simp_all
  then show ?thesis
    by (simp add: relpath_def abs_comps_below_notes [OF assms(1)] abs_comps_mount join_all_def Let_def)
qed

lemma join_below:
  assumes "list_all valid_name ds" and "valid_name fname"
  shows "os_path_join (path_below ''/tmp/myfs_mount/notes'' ds) fname
           = path_below ''/tmp/myfs_mount/notes'' (ds @ [fname])"
proof -
  have "path_below ''/tmp/myfs_mount/notes'' ds \<noteq> []
      \<and> last (path_below ''/tmp/myfs_mount/notes'' ds) \<noteq> CHR ''/''"
    using assms(1) by (intro path_below_end) simp_all
  with assms(2) show ?thesis
    by (simp add: os_path_join_valid path_below_snoc)
qed

lemma dirname_below:
  assumes "base \<noteq> []" and "hd base \<noteq> CHR ''/''" and "last base \<noteq> CHR ''/''"
    and "list_all valid_name ds" and "valid_name fname"
  shows "dirname (path_below base (ds @ [fname])) = path_below base ds"
proof -
  let ?q = "path_below base ds"
  from assms(5) have f: "\<forall>c\<in>set (rev fname). c \<noteq> CHR ''/''" by (auto simp: valid_name_def)
  from path_below_end [OF assms(1,3,4)] have q: "?q \<noteq> []" "last ?q \<noteq> CHR ''/''" by simp_all
  have hdq: "hd ?q \<noteq> CHR ''/''" using assms(1,2) by (simp add: path_below_def)
  have head: "rev (dropWhile (\<lambda>c. c \<noteq> CHR ''/'') (rev (?q @ CHR ''/'' # fname))) = ?q @ ''/''"
    using f by (simp add: dropWhile_append3)
  have notall: "?q @ ''/'' \<noteq> replicate (length (?q @ ''/'')) (CHR ''/'')"
  proof
    assume "?q @ ''/'' = replicate (length (?q @ ''/'')) (CHR ''/'')"
    then have "hd (?q @ ''/'') = CHR ''/''"
      by (metis hd_replicate length_0_conv snoc_eq_iff_butlast)
    with q(1) hdq show False by simp
  qed
  have "rstrip_sep (?q @ ''/'') = ?q"
    using q by (cases "rev ?q") (auto simp: rstrip_sep_def)
  with head notall show ?thesis
    by (simp add: dirname_def path_below_snoc Let_def)
qed

lemma strip_sep_clean:
  assumes "q \<noteq> []" and "hd q \<noteq> CHR ''/''" and "last q \<noteq> CHR ''/''"
  shows "strip_sep q = q"
proof -
  from assms(1,2) have a: "dropWhile (\<lambda>c. c = CHR ''/'') q = q" by (cases q) auto
  from assms(1,3) have b: "dropWhile (\<lambda>c. c = CHR ''/'') (rev q) = rev q"
    by (cases "rev q") auto
  show ?thesis by (simp add: strip_sep_def a b)
qed

lemma segments_below_notes:
  assumes "list_all valid_name ds"
  shows "split_sep (strip_sep (path_below ''notes'' ds)) = ''notes'' # ds"
proof -
  have "path_below ''notes'' ds \<noteq> [] \<and> last (path_below ''notes'' ds) \<noteq> CHR ''/''"
    using assms by (intro path_below_end) simp_all
  moreover have "hd (path_below ''notes'' ds) \<noteq> CHR ''/''" by (simp add: path_below_def)
  ultimately have "strip_sep (path_below ''notes'' ds) = path_below ''notes'' ds"
    by (intro strip_sep_clean) simp_all
  with assms show ?thesis by (simp add: split_sep_path_below)
qed

text \<open>What the scan computes for a file found by the walk of a well-formed tree.\<close>

lemma scan_paths:
  assumes "wf_tree t"
    and "(root, dirs, files) \<in> set (os_walk (os_path_join MOUNT_DIR ''notes'') t)"
    and "fname \<in> set files"
  obtains ds where "list_all valid_name ds" "valid_name fname"
    "os_path_join root fname = path_below ''/tmp/myfs_mount/notes'' (ds @ [fname])"
    "relpath (os_path_join root fname) MOUNT_DIR = path_below ''notes'' (ds @ [fname])"
    "dirname (relpath (os_path_join root fname) MOUNT_DIR) = path_below ''notes'' ds"
proof -
  from os_walk_roots [OF assms(1) _ _ assms(2)] obtain ds
    where ds: "list_all valid_name ds" "root = path_below ''/tmp/myfs_mount/notes'' ds"
      "list_all valid_name files"
    by (auto simp: notes_dir_eq)
  from ds(3) assms(3) have v: "valid_name fname" by (simp add: list_all_iff)
  have j: "os_path_join root fname = path_below ''/tmp/myfs_mount/notes'' (ds @ [fname])"
    using ds(1,2) v by (simp add: join_below)
  have r: "relpath (os_path_join root fname) MOUNT_DIR = path_below ''notes'' (ds @ [fname])"
    using ds(1) v by (simp add: j relpath_below_notes)
  have d: "dirname (relpath (os_path_join root fname) MOUNT_DIR) = path_below ''notes'' ds"
    unfolding r using ds(1) v by (intro dirname_below) simp_all
  from ds(1) v j r d show ?thesis by (rule that)
qed

section \<open>The top folder of the mirror and the files a pass has handled\<close>

lemma has_top_folder_iff:
  "has_top_folder w \<longleftrightarrow> (\<exists>ob\<in>set (objects w). matches True DRIVE_FOLDER_ID ''notes'' ob)"
  by (simp add: has_top_folder_def list_ex_iff)

lemma ensure_loop_keeps_top:
  "ensure_loop parts parent w = (r, w1) \<Longrightarrow> has_top_folder w \<Longrightarrow> has_top_folder w1"
  by (drule ensure_loop_objects) (auto simp: has_top_folder_iff)

lemma rewritten_still_matches:
  assumes "ob \<in> set objs" and "matches fo p n ob"
  shows "\<exists>ob'\<in>set (map (\<lambda>ob. if oid ob = i then ob\<lparr>media := c, modified := m\<rparr> else ob) objs).
           matches fo p n ob'"
proof -
  let ?f = "\<lambda>ob. if oid ob = i then ob\<lparr>media := c, modified := m\<rparr> else ob"
  from assms(2) have "matches fo p n (?f ob)" by (simp add: matches_def)
  moreover from assms(1) have "?f ob \<in> ?f ` set objs" by (rule imageI)
  then have "?f ob \<in> set (map ?f objs)" by simp
  ultimately show ?thesis by blast
qed

lemma files_update_keeps_top:
  assumes "files_update i l c w = (r, w2)" and "has_top_folder w"
  shows "has_top_folder w2"
proof -
  from files_update_frame [OF assms(1)]
  consider "objects w2 = objects w"
    | "objects w2 =
        map (\<lambda>ob. if oid ob = i then ob\<lparr>media := c, modified := Suc (length (calls w))\<rparr> else ob)
          (objects w)"
    by blast
  then show ?thesis
  proof cases
    case 1
    with assms(2) show ?thesis by (simp add: has_top_folder_def)
  next
    case 2
    from assms(2) obtain ob where "ob \<in> set (objects w)" "matches True DRIVE_FOLDER_ID ''notes'' ob"
      by (auto simp: has_top_folder_iff)
    from rewritten_still_matches [OF this] show ?thesis
      unfolding has_top_folder_iff 2 by blast
  qed
qed

lemma files_create_keeps_top:
  "files_create cl parent name folder content w = (r, w2) \<Longrightarrow> has_top_folder w \<Longrightarrow>
     has_top_folder w2"
  by (drule files_create_frame) (auto simp: has_top_folder_iff)

lemma except_HttpError_objects:
  "except_HttpError l e w = (r, w2) \<Longrightarrow> objects w2 = objects w"
  by (auto simp: except_HttpError_def print_line_def split: if_splits)

lemma upload_or_update_keeps_top:
  assumes "upload_or_update w opn local_path parent name = (r, w2)" and "has_top_folder w"
  shows "has_top_folder w2"
proof (cases "opn local_path")
  case None
  with assms(1) have "objects w2 = objects w"
    by (simp add: upload_or_update_def except_HttpError_objects)
  with assms(2) show ?thesis by (simp add: has_top_folder_def)
next
  case (Some content)
  obtain r1 w1 where f: "find_drive_file w parent name = (r1, w1)"
    by (cases "find_drive_file w parent name")
  then have "objects w1 = objects w" by (simp add: find_drive_file_frame)
  with assms(2) have top1: "has_top_folder w1" by (simp add: has_top_folder_def)
  show ?thesis
  proof (cases r1)
    case (Inl e)
    with assms(1) Some f have "objects w2 = objects w1"
      by (simp add: upload_or_update_def except_HttpError_objects)
    with top1 show ?thesis by (simp add: has_top_folder_def)
  next
    case (Inr existing)
    show ?thesis
    proof (cases existing)
      case None
      obtain r3 w3 where c: "files_create (CreateFile parent name local_path) parent name False
          content w1 = (r3, w3)"
        by (cases "files_create (CreateFile parent name local_path) parent name False content w1")
      with top1 have top3: "has_top_folder w3" by (simp add: files_create_keeps_top)
      from assms(1) Some f Inr None c have "objects w2 = objects w3"
        by (cases r3) (auto simp: upload_or_update_def print_line_def except_HttpError_objects)
      with top3 show ?thesis by (simp add: has_top_folder_def)
    next
      case (Some ex)
      obtain r3 w3 where c: "files_update (oid ex) local_path content w1 = (r3, w3)"
        by (cases "files_update (oid ex) local_path content w1")
      with top1 have top3: "has_top_folder w3" by (simp add: files_update_keeps_top)
      from assms(1) \<open>opn local_path = Some content\<close> f Inr Some c have "objects w2 = objects w3"
        by (cases r3) (auto simp: upload_or_update_def print_line_def except_HttpError_objects)
      with top3 show ?thesis by (simp add: has_top_folder_def)
    qed
  qed
qed

lemma ensure_loop_makes_top:
  assumes "ensure_loop (''notes'' # ds) DRIVE_FOLDER_ID w = (Inr i, w1)"
  shows "has_top_folder w1"
  using assms
proof (cases rule: ensure_loop_Cons_cases)
  case (found f)
  from found(1) have "f \<in> set (objects w) \<and> matches True DRIVE_FOLDER_ID ''notes'' f"
    by (rule find_SomeD)
  then have "has_top_folder (w\<lparr>calls := calls w @ [ListFolders DRIVE_FOLDER_ID ''notes''],
      faults := tl (faults w)\<rparr>)"
    by (auto simp: has_top_folder_iff)
  with found(5) show ?thesis by (rule ensure_loop_keeps_top)
next
  case created
  show ?thesis
    by (rule ensure_loop_keeps_top [OF created(4)]) (simp add: has_top_folder_iff matches_def)
qed

text \<open>A file of the walk whose directory, relative to the mount directory, lies at or below
  \<^verbatim>\<open>notes\<close>.\<close>

lemma sync_file_top:
  assumes "sync_file opn root fname w up = (r, w', up')"
    and "list_all valid_name ds"
    and "dirname (relpath (os_path_join root fname) MOUNT_DIR) = path_below ''notes'' ds"
  shows "(has_top_folder w \<longrightarrow> has_top_folder w') \<and> (up' \<noteq> up \<longrightarrow> has_top_folder w')"
proof (cases "relpath (os_path_join root fname) MOUNT_DIR \<in> up")
  case True
  with assms(1) show ?thesis by (simp add: sync_file_def)
next
  case False
  let ?local = "os_path_join root fname"
  let ?rel = "relpath ?local MOUNT_DIR"
  obtain r1 w1 where e: "ensure_drive_path w (path_below ''notes'' ds) = (r1, w1)"
    by (cases "ensure_drive_path w (path_below ''notes'' ds)")
  have nonroot: "path_below ''notes'' ds \<noteq> [] \<and> path_below ''notes'' ds \<noteq> ''.''"
    by (simp add: path_below_def)
  from e nonroot have loop: "ensure_loop (''notes'' # ds) DRIVE_FOLDER_ID w = (r1, w1)"
    by (simp add: ensure_drive_path_def segments_below_notes [OF assms(2)] del: ensure_loop.simps)
  then have keep1: "has_top_folder w \<Longrightarrow> has_top_folder w1"
    by (rule ensure_loop_keeps_top)
  show ?thesis
  proof (cases r1)
    case (Inl x)
    with assms(1,3) False e keep1 show ?thesis by (auto simp: sync_file_def)
  next
    case (Inr parent)
    with loop have top1: "has_top_folder w1" by (simp add: ensure_loop_makes_top del: ensure_loop.simps)
    obtain r2 w2 where u: "upload_or_update w1 opn ?local parent fname = (r2, w2)"
      by (cases "upload_or_update w1 opn ?local parent fname")
    with top1 have top2: "has_top_folder w2" by (simp add: upload_or_update_keeps_top)
    from assms(1,3) False e Inr u have "w' = w2"
      by (cases r2) (simp_all add: sync_file_def)
    with top2 show ?thesis by simp
  qed
qed

lemma sync_file_done:
  "sync_file opn root fname w up = (Inr (), w', up') \<Longrightarrow>
     relpath (os_path_join root fname) MOUNT_DIR \<in> up'"
  by (auto simp: sync_file_def Let_def split: if_splits prod.splits sum.splits)

lemma sync_files_top:
  assumes "sync_files opn root files w up = (r, w', up')"
    and "\<forall>fname\<in>set files. \<exists>ds. list_all valid_name ds
            \<and> dirname (relpath (os_path_join root fname) MOUNT_DIR) = path_below ''notes'' ds"
  shows "(has_top_folder w \<longrightarrow> has_top_folder w') \<and> (up' \<noteq> up \<longrightarrow> has_top_folder w')
       \<and> (r = Inr () \<longrightarrow> (\<forall>fname\<in>set files. relpath (os_path_join root fname) MOUNT_DIR \<in> up'))"
  using assms
proof (induction files arbitrary: w up)
  case Nil
  then show ?case by simp
next
  case (Cons fname files)
  obtain r1 w1 up1 where s: "sync_file opn root fname w up = (r1, w1, up1)"
    by (cases "sync_file opn root fname w up")
  from Cons.prems(2) obtain ds where ds: "list_all valid_name ds"
    "dirname (relpath (os_path_join root fname) MOUNT_DIR) = path_below ''notes'' ds"
    by auto
  from sync_file_top [OF s ds]
  have t1: "has_top_folder w \<longrightarrow> has_top_folder w1" "up1 \<noteq> up \<longrightarrow> has_top_folder w1"
    by simp_all
  show ?case
  proof (cases r1)
    case (Inl e)
    with s Cons.prems(1) t1 show ?thesis by auto
  next
    case (Inr u)
    with s Cons.prems(1) have rest: "sync_files opn root files w1 up1 = (r, w', up')" by simp
    from Cons.prems(2) have "\<forall>fname\<in>set files. \<exists>ds. list_all valid_name ds
            \<and> dirname (relpath (os_path_join root fname) MOUNT_DIR) = path_below ''notes'' ds"
      by simp
    from Cons.IH [OF rest this]
    have t2: "has_top_folder w1 \<longrightarrow> has_top_folder w'" "up' \<noteq> up1 \<longrightarrow> has_top_folder w'"
      "r = Inr () \<longrightarrow> (\<forall>fname\<in>set files. relpath (os_path_join root fname) MOUNT_DIR \<in> up')"
      by simp_all
    from s Inr have "relpath (os_path_join root fname) MOUNT_DIR \<in> up1"
      by (simp add: sync_file_done)
    moreover from rest have "up1 \<subseteq> up'" by (rule sync_files_grows)
    ultimately have here: "relpath (os_path_join root fname) MOUNT_DIR \<in> up'" by blast
    from t1 t2 here show ?thesis by auto
  qed
qed

lemma sync_walk_top:
  assumes "sync_walk opn walk w up = (r, w', up')"
    and "\<forall>(root, dirs, files)\<in>set walk. \<forall>fname\<in>set files. \<exists>ds. list_all valid_name ds
            \<and> dirname (relpath (os_path_join root fname) MOUNT_DIR) = path_below ''notes'' ds"
  shows "(has_top_folder w \<longrightarrow> has_top_folder w') \<and> (up' \<noteq> up \<longrightarrow> has_top_folder w')
       \<and> (r = Inr () \<longrightarrow> (\<forall>(root, dirs, files)\<in>set walk. \<forall>fname\<in>set files.
              relpath (os_path_join root fname) MOUNT_DIR \<in> up'))"
  using assms
proof (induction walk arbitrary: w up)
  case Nil
  then show ?case by simp
next
  case (Cons entry walk)
  obtain root dirs files where entry: "entry = (root, dirs, files)" by (cases entry)
  obtain r1 w1 up1 where s: "sync_files opn root files w up = (r1, w1, up1)"
    by (cases "sync_files opn root files w up")
  from Cons.prems(2) entry
  have shaped: "\<forall>fname\<in>set files. \<exists>ds. list_all valid_name ds
            \<and> dirname (relpath (os_path_join root fname) MOUNT_DIR) = path_below ''notes'' ds"
    by simp
  from sync_files_top [OF s shaped]
  have t1: "has_top_folder w \<longrightarrow> has_top_folder w1" "up1 \<noteq> up \<longrightarrow> has_top_folder w1"
    "r1 = Inr () \<longrightarrow> (\<forall>fname\<in>set files. relpath (os_path_join root fname) MOUNT_DIR \<in> up1)"
    by simp_all
  show ?case
  proof (cases r1)
    case (Inl e)
    with s entry Cons.prems(1) t1 show ?thesis by auto
  next
    case (Inr u)
    with s entry Cons.prems(1) have rest: "sync_walk opn walk w1 up1 = (r, w', up')" by simp
    from Cons.prems(2)
    have "\<forall>(root, dirs, files)\<in>set walk. \<forall>fname\<in>set files. \<exists>ds. list_all valid_name ds
            \<and> dirname (relpath (os_path_join root fname) MOUNT_DIR) = path_below ''notes'' ds"
      by simp
    from Cons.IH [OF rest this]
    have t2: "has_top_folder w1 \<longrightarrow> has_top_folder w'" "up' \<noteq> up1 \<longrightarrow> has_top_folder w'"
      "r = Inr () \<longrightarrow> (\<forall>(root, dirs, files)\<in>set walk. \<forall>fname\<in>set files.
              relpath (os_path_join root fname) MOUNT_DIR \<in> up')"
      by simp_all
    from rest have g: "up1 \<subseteq> up'" by (rule sync_walk_grows)
    from t1(3) Inr g
    have here: "\<forall>fname\<in>set files. relpath (os_path_join root fname) MOUNT_DIR \<in> up'"
      by auto
    from t1 t2 here entry show ?thesis by auto
  qed
qed

section \<open>Later states of the store\<close>

lemma same_identity_refl: "same_identity a a"
  by (simp add: same_identity_def)

lemma same_identity_trans: "same_identity a b \<Longrightarrow> same_identity b c \<Longrightarrow> same_identity a c"
  by (simp add: same_identity_def)

lemma same_identity_matches: "same_identity a b \<Longrightarrow> matches fo p n a = matches fo p n b"
  by (simp add: same_identity_def matches_def)

lemma later_store_iff:
  "later_store w1 w2 \<longleftrightarrow>
     (\<exists>ys zs. objects w2 = ys @ zs \<and> list_all2 same_identity (objects w1) ys)"
proof
  assume "later_store w1 w2"
  then have "objects w2 = take (length (objects w1)) (objects w2) @ drop (length (objects w1)) (objects w2)"
    and "list_all2 same_identity (objects w1) (take (length (objects w1)) (objects w2))"
    by (simp_all add: later_store_def)
  then show "\<exists>ys zs. objects w2 = ys @ zs \<and> list_all2 same_identity (objects w1) ys"
    by blast
next
  assume "\<exists>ys zs. objects w2 = ys @ zs \<and> list_all2 same_identity (objects w1) ys"
  then obtain ys zs where o: "objects w2 = ys @ zs" and l: "list_all2 same_identity (objects w1) ys"
    by blast
  from l have "length (objects w1) = length ys" by (rule list_all2_lengthD)
  with o l show "later_store w1 w2" by (simp add: later_store_def)
qed

lemma later_store_refl: "later_store w w"
  by (simp add: later_store_def list_all2_refl same_identity_refl)

lemma later_store_same: "objects w2 = objects w1 \<Longrightarrow> later_store w1 w2"
  by (simp add: later_store_def list_all2_refl same_identity_refl)

lemma later_store_append: "objects w2 = objects w1 @ zs \<Longrightarrow> later_store w1 w2"
  by (simp add: later_store_def list_all2_refl same_identity_refl)

lemma later_store_trans:
  assumes "later_store w1 w2" and "later_store w2 w3"
  shows "later_store w1 w3"
proof -
  from assms(1) obtain ys zs where a: "objects w2 = ys @ zs" "list_all2 same_identity (objects w1) ys"
    by (auto simp: later_store_iff)
  from assms(2) obtain ys' zs' where b: "objects w3 = ys' @ zs'"
    "list_all2 same_identity (objects w2) ys'"
    by (auto simp: later_store_iff)
  from b(2) a(1) have "list_all2 same_identity (ys @ zs) ys'" by simp
  then obtain us vs where u: "ys' = us @ vs" "list_all2 same_identity ys us"
    by (auto simp: list_all2_append1)
  from a(2) u(2) have "list_all2 same_identity (objects w1) us"
    by (rule list_all2_trans [rotated]) (rule same_identity_trans)
  with b(1) u(1) show ?thesis
    by (auto simp: later_store_iff)
qed

lemma find_later:
  assumes "list_all2 same_identity xs ys" and "List.find (matches fo p n) xs = Some f"
  shows "map_option oid (List.find (matches fo p n) (ys @ zs)) = Some (oid f)"
  using assms
proof (induction xs ys rule: list_all2_induct)
  case Nil
  then show ?case by simp
next
  case (Cons x xs y ys)
  from Cons.hyps(1) have m: "matches fo p n x = matches fo p n y"
    by (rule same_identity_matches)
  show ?case
  proof (cases "matches fo p n x")
    case True
    with Cons.prems Cons.hyps(1) m show ?thesis by (simp add: same_identity_def)
  next
    case False
    with Cons.prems m Cons.IH show ?thesis by simp
  qed
qed

lemma find_later_store:
  assumes "later_store w1 w2" and "List.find (matches fo p n) (objects w1) = Some f"
  shows "map_option oid (List.find (matches fo p n) (objects w2)) = Some (oid f)"
proof -
  from assms(1) obtain ys zs where "objects w2 = ys @ zs" "list_all2 same_identity (objects w1) ys"
    by (auto simp: later_store_iff)
  with find_later [OF this(2) assms(2)] show ?thesis by simp
qed

lemma ensure_loop_later: "ensure_loop parts parent w = (r, w1) \<Longrightarrow> later_store w w1"
  by (drule ensure_loop_objects) (auto intro: later_store_append)

lemma ensure_loop_again_later:
  assumes "ensure_loop parts parent w = (Inr i, w1)"
    and "\<forall>ob\<in>set (objects w). oid ob \<noteq> []"
    and "faults w2 = []"
    and "later_store w1 w2"
  shows "\<exists>ls. ensure_loop parts parent w2 = (Inr i, w2\<lparr>calls := calls w2 @ ls\<rparr>)
               \<and> length ls = length parts \<and> list_all is_lookup ls"
  using assms
proof (induction parts arbitrary: parent w w2)
  case Nil
  then show ?case by simp
next
  case (Cons p parts)
  let ?w2' = "w2\<lparr>calls := calls w2 @ [ListFolders parent p]\<rparr>"
  have step: "\<exists>w' j. ensure_loop parts j w' = (Inr i, w1) \<and> j \<noteq> [] \<and> literal_ok p \<and> utf8_ok p
      \<and> (\<forall>ob\<in>set (objects w'). oid ob \<noteq> [])
      \<and> (\<exists>f. List.find (matches True parent p) (objects w') = Some f \<and> oid f = j)"
    using Cons.prems(1)
  proof (cases rule: ensure_loop_Cons_cases)
    case (found f)
    let ?w' = "w\<lparr>calls := calls w @ [ListFolders parent p], faults := tl (faults w)\<rparr>"
    from found Cons.prems(2) show ?thesis
      by (intro exI [of _ ?w'] exI [of _ "oid f"]) simp
  next
    case created
    let ?new = "\<lparr>oid = new_id (fresh w), oname = p, oparents = [parent],
                        is_folder = True, trashed = False, media = [],
                        modified = Suc (Suc (length (calls w)))\<rparr>"
    let ?w' = "w\<lparr>calls := calls w @ [ListFolders parent p, CreateFolder parent p],
              faults := tl (tl (faults w)), objects := objects w @ [?new],
              fresh := Suc (fresh w)\<rparr>"
    have none: "List.find (matches True parent p) (objects w) = None"
    proof (cases "List.find (matches True parent p) (objects w)")
      case None then show ?thesis .
    next
      case (Some f)
      then have "f \<in> set (objects w)" by (simp add: find_SomeD)
      with Cons.prems(2) have "oid f \<noteq> []" by blast
      with Some created(1) show ?thesis by (simp add: truthy_def)
    qed
    then have "List.find (matches True parent p) (objects ?w') = Some ?new"
      by (simp add: find_app matches_def)
    with created Cons.prems(2) show ?thesis
      by (intro exI [of _ ?w'] exI [of _ "new_id (fresh w)"]) (simp add: new_id_nonempty)
  qed
  then obtain w' j f where w': "ensure_loop parts j w' = (Inr i, w1)" "j \<noteq> []" "literal_ok p"
      "\<forall>ob\<in>set (objects w'). oid ob \<noteq> []"
      "utf8_ok p"
      "List.find (matches True parent p) (objects w') = Some f" "oid f = j"
    by blast
  from ensure_loop_later [OF w'(1)] Cons.prems(4) have "later_store w' w2"
    by (rule later_store_trans)
  from find_later_store [OF this w'(6)] w'(7)
  obtain f2 where find2: "List.find (matches True parent p) (objects w2) = Some f2" "oid f2 = j"
    by auto
  have step2: "ensure_loop (p # parts) parent w2 = ensure_loop parts j ?w2'"
    using w'(2,3,5) Cons.prems(3)
    by (simp add: find_child_folder_eq truthy_def world_faults_same find2)
  have "\<exists>ls. ensure_loop parts j ?w2' = (Inr i, ?w2'\<lparr>calls := calls ?w2' @ ls\<rparr>)
               \<and> length ls = length parts \<and> list_all is_lookup ls"
  proof (rule Cons.IH [OF w'(1) w'(4)])
    show "faults ?w2' = []" using Cons.prems(3) by simp
    show "later_store w1 ?w2'" using Cons.prems(4) by (simp add: later_store_def)
  qed
  then obtain ls where ls: "ensure_loop parts j ?w2' = (Inr i, ?w2'\<lparr>calls := calls ?w2' @ ls\<rparr>)"
      "length ls = length parts" "list_all is_lookup ls" by blast
  show ?case
    by (rule exI [of _ "ListFolders parent p # ls"])
       (simp add: step2 ls is_lookup_ListFolders del: ensure_loop.simps)
qed


lemma ensure_drive_path_later: "ensure_drive_path w d = (r, w1) \<Longrightarrow> later_store w w1"
  by (auto simp: ensure_drive_path_def later_store_refl split: if_splits dest: ensure_loop_later)

lemma rewritten_same_identity:
  "list_all2 same_identity xs
     (map (\<lambda>ob. if oid ob = i then ob\<lparr>media := c, modified := m\<rparr> else ob) xs)"
  by (induction xs) (simp_all add: same_identity_def)

lemma files_update_later: "files_update i l c w = (r, w2) \<Longrightarrow> later_store w w2"
  by (drule files_update_frame)
     (auto simp: later_store_def rewritten_same_identity list_all2_refl same_identity_refl)

lemma files_create_later:
  "files_create cl parent name folder content w = (r, w2) \<Longrightarrow> later_store w w2"
  by (drule files_create_frame)
     (auto simp: later_store_def list_all2_refl same_identity_refl)

lemma upload_or_update_later:
  assumes "upload_or_update w opn local_path parent name = (r, w2)"
  shows "later_store w w2"
proof (cases "opn local_path")
  case None
  with assms have "objects w2 = objects w"
    by (simp add: upload_or_update_def except_HttpError_objects)
  then show ?thesis by (rule later_store_same)
next
  case (Some content)
  obtain r1 w1 where f: "find_drive_file w parent name = (r1, w1)"
    by (cases "find_drive_file w parent name")
  then have o1: "objects w1 = objects w" by (simp add: find_drive_file_frame)
  show ?thesis
  proof (cases r1)
    case (Inl e)
    with assms Some f have "objects w2 = objects w1"
      by (simp add: upload_or_update_def except_HttpError_objects)
    with o1 show ?thesis by (simp add: later_store_same)
  next
    case (Inr existing)
    show ?thesis
    proof (cases existing)
      case None
      obtain r3 w3 where c: "files_create (CreateFile parent name local_path) parent name False
          content w1 = (r3, w3)"
        by (cases "files_create (CreateFile parent name local_path) parent name False content w1")
      then have "later_store w1 w3" by (rule files_create_later)
      with o1 have l: "later_store w w3" by (simp add: later_store_def)
      from assms Some f Inr None c have "objects w2 = objects w3"
        by (cases r3) (auto simp: upload_or_update_def print_line_def except_HttpError_objects)
      with l show ?thesis by (simp add: later_store_def)
    next
      case (Some ex)
      obtain r3 w3 where c: "files_update (oid ex) local_path content w1 = (r3, w3)"
        by (cases "files_update (oid ex) local_path content w1")
      then have "later_store w1 w3" by (rule files_update_later)
      with o1 have l: "later_store w w3" by (simp add: later_store_def)
      from assms \<open>opn local_path = Some content\<close> f Inr Some c have "objects w2 = objects w3"
        by (cases r3) (auto simp: upload_or_update_def print_line_def except_HttpError_objects)
      with l show ?thesis by (simp add: later_store_def)
    qed
  qed
qed

lemma sync_file_later:
  assumes "sync_file opn root fname w up = (r, w', up')"
  shows "later_store w w'"
proof (cases "relpath (os_path_join root fname) MOUNT_DIR \<in> up")
  case True
  with assms show ?thesis by (simp add: sync_file_def later_store_refl)
next
  case False
  let ?local = "os_path_join root fname"
  let ?rel = "relpath ?local MOUNT_DIR"
  obtain r1 w1 where e: "ensure_drive_path w (dirname ?rel) = (r1, w1)"
    by (cases "ensure_drive_path w (dirname ?rel)")
  then have l1: "later_store w w1" by (rule ensure_drive_path_later)
  show ?thesis
  proof (cases r1)
    case (Inl x)
    with assms False e l1 show ?thesis by (simp add: sync_file_def)
  next
    case (Inr parent)
    obtain r2 w2 where u: "upload_or_update w1 opn ?local parent fname = (r2, w2)"
      by (cases "upload_or_update w1 opn ?local parent fname")
    then have "later_store w1 w2" by (rule upload_or_update_later)
    with l1 have l2: "later_store w w2" by (rule later_store_trans)
    from assms False e Inr u have "w' = w2"
      by (cases r2) (simp_all add: sync_file_def)
    with l2 show ?thesis by simp
  qed
qed

lemma sync_files_later:
  "sync_files opn root files w up = (r, w', up') \<Longrightarrow> later_store w w'"
proof (induction files arbitrary: w up)
  case Nil
  then show ?case by (simp add: later_store_refl)
next
  case (Cons fname files)
  obtain r1 w1 up1 where s: "sync_file opn root fname w up = (r1, w1, up1)"
    by (cases "sync_file opn root fname w up")
  then have l: "later_store w w1" by (rule sync_file_later)
  show ?case
  proof (cases r1)
    case (Inl e)
    with s Cons.prems l show ?thesis by auto
  next
    case (Inr u)
    with s Cons.prems have "sync_files opn root files w1 up1 = (r, w', up')" by simp
    from l Cons.IH [OF this] show ?thesis by (rule later_store_trans)
  qed
qed

lemma sync_walk_later:
  "sync_walk opn walk w up = (r, w', up') \<Longrightarrow> later_store w w'"
proof (induction walk arbitrary: w up)
  case Nil
  then show ?case by (simp add: later_store_refl)
next
  case (Cons entry walk)
  obtain root dirs files where entry: "entry = (root, dirs, files)" by (cases entry)
  obtain r1 w1 up1 where s: "sync_files opn root files w up = (r1, w1, up1)"
    by (cases "sync_files opn root files w up")
  then have l: "later_store w w1" by (rule sync_files_later)
  show ?case
  proof (cases r1)
    case (Inl e)
    with s entry Cons.prems l show ?thesis by auto
  next
    case (Inr u)
    with s entry Cons.prems have "sync_walk opn walk w1 up1 = (r, w', up')" by simp
    from l Cons.IH [OF this] show ?thesis by (rule later_store_trans)
  qed
qed

lemma scan_and_sync_later:
  "scan_and_sync fs w up = (r, w', up') \<Longrightarrow> later_store w w'"
  by (cases "notes_entry fs") (auto simp: scan_and_sync_def later_store_refl dest: sync_walk_later)

lemma daemon_loop_later:
  "daemon_loop cycles w up = (r, w', up') \<Longrightarrow> later_store w w'"
proof (induction cycles arbitrary: w up)
  case Nil
  then show ?case by (simp add: later_store_refl)
next
  case (Cons fs cycles)
  obtain r1 w1 up1 where s: "scan_and_sync fs w up = (r1, w1, up1)"
    by (cases "scan_and_sync fs w up")
  then have l: "later_store w w1" by (rule scan_and_sync_later)
  show ?case
  proof (cases r1)
    case (Inl e)
    with s Cons.prems l show ?thesis by auto
  next
    case (Inr u)
    with s Cons.prems have "daemon_loop cycles w1 up1 = (r, w', up')" by simp
    from l Cons.IH [OF this] show ?thesis by (rule later_store_trans)
  qed
qed

text \<open>The definitions that evaluate a run on a concrete state.\<close>

lemmas run_defs =
  ensure_drive_path_def strip_sep_def find_child_folder_def files_list_def execute_def
  literal_ok_def truthy_def create_folder_def files_create_def new_id_def matches_def
  find_drive_file_def files_update_def upload_or_update_def except_HttpError_def
  print_line_def str_error_def utf8_ok.simps seq_len_def

lemmas scan_defs =
  main_def scan_and_sync_def sync_file_def os_path_join_def MOUNT_DIR_def relpath_def
  abs_comps_def norm_step_def join_all_def dirname_def rstrip_sep_def Let_def

section \<open>Root resolution and the missing scan directory\<close>

text \<open>C7. For the root relative directory, the empty string or \<^verbatim>\<open>.\<close>, the resolver
  returns the configured root folder id and leaves the world as it is: no request is
  sent, no folder is created, nothing is printed.\<close>

theorem C7_root_resolution:
  "ensure_drive_path w [] = (Inr DRIVE_FOLDER_ID, w)
   \<and> ensure_drive_path w ''.'' = (Inr DRIVE_FOLDER_ID, w)"
  by (simp add: ensure_drive_path_def)

text \<open>C10. When the mount directory has no entry \<^verbatim>\<open>notes\<close> at the start of a cycle, the
  pass returns at once: the world (so the requests sent and the store) and the session
  sync record are unchanged.\<close>

theorem C10_missing_notes_dir:
  "notes_entry fs = None \<Longrightarrow> scan_and_sync fs w uploaded = (Inr (), w, uploaded)"
  by (simp add: scan_and_sync_def)

theorem C10_missing_notes_dir_witness:
  "notes_entry \<lparr>notes_entry = None, fopen = Map.empty\<rparr> = None
   \<and> scan_and_sync \<lparr>notes_entry = None, fopen = Map.empty\<rparr>
        \<lparr>objects = [], fresh = 0, faults = [Refused], calls = [], out = []\<rparr> {''notes/a.txt''}
      = (Inr (), \<lparr>objects = [], fresh = 0, faults = [Refused], calls = [], out = []\<rparr>, {''notes/a.txt''})"
  using C10_missing_notes_dir [of "\<lparr>notes_entry = None, fopen = Map.empty\<rparr>"
      "\<lparr>objects = [], fresh = 0, faults = [Refused], calls = [], out = []\<rparr>" "{''notes/a.txt''}"]
  by simp

section \<open>Resolving a directory twice\<close>

text \<open>C3, as amended. When a relative directory has been resolved and is resolved again in
  any later state of the store in the session (ids not empty, no request of the second
  resolution answered with an error), the second resolution gives the same folder id;
  the first resolution sends at most one folder-creation request per segment and the
  second sends none. The resolver keeps no cache: the second resolution sends one
  lookup request per segment again (none for the root). Later states are what the
  daemon's own steps lead to: the relation is reflexive and transitive and holds
  across a path resolution, an upload step and any run of the daemon loop.\<close>

theorem C3_resolve_twice:
  assumes "ensure_drive_path w d = (Inr i, w1)"
    and "list_all (\<lambda>ob. oid ob \<noteq> []) (objects w)"
    and "later_store w1 w2"
    and "faults w2 = []"
  shows "(\<exists>cs ls. calls w1 = calls w @ cs
           \<and> length (filter is_create_folder cs) \<le> length (split_sep (strip_sep d))
           \<and> ensure_drive_path w2 d = (Inr i, w2\<lparr>calls := calls w2 @ ls\<rparr>)
           \<and> list_all is_lookup ls
           \<and> length ls = (if d = [] \<or> d = ''.'' then 0 else length (split_sep (strip_sep d))))
       \<and> later_store w1 w1
       \<and> (later_store wa wb \<and> later_store wb wc \<longrightarrow> later_store wa wc)
       \<and> (ensure_drive_path wa d' = (ra, wb) \<longrightarrow> later_store wa wb)
       \<and> (upload_or_update wa opn local_path parent name = (ru, wb) \<longrightarrow> later_store wa wb)
       \<and> (daemon_loop cycles wa uploaded = (rd, wb, uploaded') \<longrightarrow> later_store wa wb)"
proof -
  have main: "\<exists>cs ls. calls w1 = calls w @ cs
           \<and> length (filter is_create_folder cs) \<le> length (split_sep (strip_sep d))
           \<and> ensure_drive_path w2 d = (Inr i, w2\<lparr>calls := calls w2 @ ls\<rparr>)
           \<and> list_all is_lookup ls
           \<and> length ls = (if d = [] \<or> d = ''.'' then 0 else length (split_sep (strip_sep d)))"
  proof (cases "d = [] \<or> d = ''.''")
    case True
    with assms(1) have "w1 = w" "i = DRIVE_FOLDER_ID"
      by (auto simp: ensure_drive_path_def)
    with True show ?thesis
      by (auto simp: ensure_drive_path_def)
  next
    case False
    let ?parts = "split_sep (strip_sep d)"
    from False assms(1) have first: "ensure_loop ?parts DRIVE_FOLDER_ID w = (Inr i, w1)"
      by (simp add: ensure_drive_path_def)
    from ensure_loop_creations [OF first] obtain cs
      where cs: "calls w1 = calls w @ cs" "length (filter is_create_folder cs) \<le> length ?parts"
      by blast
    from assms(2) have ids: "\<forall>ob\<in>set (objects w). oid ob \<noteq> []"
      by (simp add: list_all_iff)
    from ensure_loop_again_later [OF first ids assms(4) assms(3)] obtain ls
      where ls: "ensure_loop ?parts DRIVE_FOLDER_ID w2 = (Inr i, w2\<lparr>calls := calls w2 @ ls\<rparr>)"
        "length ls = length ?parts" "list_all is_lookup ls"
      by auto
    from False cs ls show ?thesis
      by (auto simp: ensure_drive_path_def)
  qed
  show ?thesis
    using main
    by (auto intro: later_store_refl later_store_trans ensure_drive_path_later
          upload_or_update_later daemon_loop_later simp del: ensure_loop.simps)
qed

theorem C3_resolve_twice_witness:
  "ensure_drive_path store_notes ''notes/sub'' = (Inr ''n'', store_notes_sub)
   \<and> list_all (\<lambda>ob. oid ob \<noteq> []) (objects store_notes)
   \<and> later_store store_notes_sub store_notes_sub_data
   \<and> faults store_notes_sub_data = []
   \<and> (\<exists>cs ls. calls store_notes_sub = calls store_notes @ cs
           \<and> length (filter is_create_folder cs) \<le> length (split_sep (strip_sep ''notes/sub''))
           \<and> ensure_drive_path store_notes_sub_data ''notes/sub''
                = (Inr ''n'', store_notes_sub_data\<lparr>calls := calls store_notes_sub_data @ ls\<rparr>)
           \<and> list_all is_lookup ls
           \<and> length ls = (if ''notes/sub'' = [] \<or> ''notes/sub'' = ''.'' then 0
                          else length (split_sep (strip_sep ''notes/sub''))))"
proof -
  have h1: "ensure_drive_path store_notes ''notes/sub'' = (Inr ''n'', store_notes_sub)"
    by (simp add: store_notes_def store_notes_sub_def run_defs)
  have h2: "list_all (\<lambda>ob. oid ob \<noteq> []) (objects store_notes)"
    by (simp add: store_notes_def)
  have h3: "later_store store_notes_sub store_notes_sub_data"
    by (simp add: later_store_def same_identity_def store_notes_sub_def store_notes_sub_data_def)
  have h4: "faults store_notes_sub_data = []"
    by (simp add: store_notes_sub_data_def)
  from C3_resolve_twice [OF h1 h2 h3 h4] h1 h2 h3 h4 show ?thesis
    by blast
qed

text \<open>As the specification states it, the property fails on an empty store: the second
  resolution of \<^verbatim>\<open>notes\<close> sends a lookup request again, the third request of the log.\<close>

theorem C3_no_cache_counterexample:
  "calls (snd (ensure_drive_path
                (snd (ensure_drive_path
                        \<lparr>objects = [], fresh = 0, faults = [], calls = [], out = []\<rparr> ''notes''))
                ''notes''))
     = [ListFolders DRIVE_FOLDER_ID ''notes'', CreateFolder DRIVE_FOLDER_ID ''notes'',
        ListFolders DRIVE_FOLDER_ID ''notes'']"
  by (simp add: run_defs)

section \<open>A failed upload\<close>

text \<open>C1, as amended. If the reconcile step for a candidate path fails with a remote error
  in its upload step, printing the \<^verbatim>\<open>[ERROR]\<close> line for \<^verbatim>\<open>HttpError\<close>, the step still
  returns normally and the path IS added to the session sync record; every later
  reconcile step for that path in the session, whatever the store and the local files
  are then, skips it without a request instead of attempting it again.\<close>

theorem C1_failed_upload_is_recorded:
  assumes "sync_file opn root fname w uploaded = (r, w', uploaded')"
    and "out w' = out w @ [''[ERROR] '' @ os_path_join root fname @ '': '' @ str_error HttpError]"
  shows "r = Inr ()
       \<and> uploaded' = insert (relpath (os_path_join root fname) MOUNT_DIR) uploaded
       \<and> (uploaded' \<subseteq> later \<longrightarrow> sync_file opn2 root fname w2 later = (Inr (), w2, later))"
proof -
  let ?rel = "relpath (os_path_join root fname) MOUNT_DIR"
  from assms(2) have changed: "out w' \<noteq> out w" by simp
  have notin: "?rel \<notin> uploaded"
  proof
    assume "?rel \<in> uploaded"
    with assms(1) have "w' = w" by (simp add: sync_file_def)
    with changed show False by simp
  qed
  obtain r1 w1 where e: "ensure_drive_path w (dirname ?rel) = (r1, w1)"
    by (cases "ensure_drive_path w (dirname ?rel)")
  then have o1: "out w1 = out w" by (rule ensure_drive_path_out)
  obtain parent where r1: "r1 = Inr parent"
  proof (cases r1)
    case (Inl x)
    with assms(1) notin e have "w' = w1" by (simp add: sync_file_def)
    with o1 changed show ?thesis by simp
  next
    case (Inr p)
    then show ?thesis by (rule that)
  qed
  obtain r2 w3 where u: "upload_or_update w1 opn (os_path_join root fname) parent fname = (r2, w3)"
    by (cases "upload_or_update w1 opn (os_path_join root fname) parent fname")
  have r2: "r2 = Inr ()"
  proof (cases r2)
    case (Inl x)
    with u have "out w3 = out w1" by (simp add: upload_or_update_Inl)
    moreover from assms(1) notin e r1 u Inl have "w' = w3" by (simp add: sync_file_def)
    ultimately show ?thesis using o1 changed by simp
  next
    case (Inr y)
    then show ?thesis by simp
  qed
  from assms(1) notin e r1 u r2 have res: "r = Inr ()" "uploaded' = insert ?rel uploaded"
    by (simp_all add: sync_file_def)
  then show ?thesis by (auto simp: sync_file_def)
qed

theorem C1_failed_upload_is_recorded_witness:
  "sync_file (fopen fs_report) ''/tmp/myfs_mount/notes'' ''report.txt'' store_report {}
     = (Inr (),
        store_report\<lparr>faults := [],
          calls := [ListFolders DRIVE_FOLDER_ID ''notes'', ListFiles ''x1'' ''report.txt'',
                    UpdateFile ''x2'' ''/tmp/myfs_mount/notes/report.txt''],
          out := [''[ERROR] /tmp/myfs_mount/notes/report.txt: HttpError'']\<rparr>,
        {''notes/report.txt''})
   \<and> sync_file Map.empty ''/tmp/myfs_mount/notes'' ''report.txt'' store_notes {''notes/report.txt''}
     = (Inr (), store_notes, {''notes/report.txt''})"
proof -
  let ?w' = "store_report\<lparr>faults := [],
          calls := [ListFolders DRIVE_FOLDER_ID ''notes'', ListFiles ''x1'' ''report.txt'',
                    UpdateFile ''x2'' ''/tmp/myfs_mount/notes/report.txt''],
          out := [''[ERROR] /tmp/myfs_mount/notes/report.txt: HttpError'']\<rparr>"
  have h1: "sync_file (fopen fs_report) ''/tmp/myfs_mount/notes'' ''report.txt'' store_report {}
     = (Inr (), ?w', {''notes/report.txt''})"
    by (simp add: fs_report_def store_report_def scan_defs run_defs)
  have h2: "out ?w' = out store_report
      @ [''[ERROR] '' @ os_path_join ''/tmp/myfs_mount/notes'' ''report.txt'' @ '': ''
           @ str_error HttpError]"
    by (simp add: store_report_def os_path_join_def str_error_def)
  have rel: "relpath (os_path_join ''/tmp/myfs_mount/notes'' ''report.txt'') MOUNT_DIR
      = ''notes/report.txt''"
    by (simp add: os_path_join_def MOUNT_DIR_def relpath_def abs_comps_def norm_step_def
          join_all_def)
  from C1_failed_upload_is_recorded [OF h1 h2, of "{''notes/report.txt''}" Map.empty store_notes]
  have "sync_file Map.empty ''/tmp/myfs_mount/notes'' ''report.txt'' store_notes {''notes/report.txt''}
     = (Inr (), store_notes, {''notes/report.txt''})"
    by (simp add: rel)
  with h1 show ?thesis by blast
qed

text \<open>As the specification states it, the property fails on a session of two cycles over one file whose lookup
  request in the upload step is answered with an error (the third request): the path is
  in the session sync record after the first cycle, and the second cycle sends no
  request for it.\<close>

theorem C1_not_retried_counterexample:
  "main [\<lparr>notes_entry = Some (Dir [(''report.txt'', File)]),
           fopen = [''/tmp/myfs_mount/notes/report.txt'' \<mapsto> ''text'']\<rparr>,
         \<lparr>notes_entry = Some (Dir [(''report.txt'', File)]),
           fopen = [''/tmp/myfs_mount/notes/report.txt'' \<mapsto> ''text'']\<rparr>]
        \<lparr>objects = [], fresh = 0, faults = [Answered, Answered, Refused], calls = [], out = []\<rparr>
   = (None,
      \<lparr>objects = [\<lparr>oid = ''n'', oname = ''notes'', oparents = [DRIVE_FOLDER_ID],
                    is_folder = True, trashed = False, media = [], modified = 2\<rparr>],
        fresh = 1, faults = [],
        calls = [ListFolders DRIVE_FOLDER_ID ''notes'', CreateFolder DRIVE_FOLDER_ID ''notes'',
                 ListFiles ''n'' ''report.txt''],
        out = [''Drive sync (OAuth) starting...'',
               ''[ERROR] /tmp/myfs_mount/notes/report.txt: HttpError'', ''Stopped.'']\<rparr>,
      {''notes/report.txt''})"
  by (simp add: scan_defs run_defs)

section \<open>No duplicate upload within a session\<close>

text \<open>C4. Once the reconcile step for a path has returned normally (after \<^verbatim>\<open>[UPLOAD]\<close> or
  \<^verbatim>\<open>[UPDATE]\<close> in particular), the path is in the session sync record, and every later
  reconcile step for it under that record or a larger one skips it: it returns with
  the world unchanged, so without any request. A pass and the daemon loop only add to
  the record; \<^verbatim>\<open>main\<close> starts it empty; and in a session that starts with no upload
  sent, no path is carried by two upload requests, and every path that a request
  carried is in the record.\<close>

theorem C4_no_duplicate_upload:
  "(sync_file opn root fname w uploaded = (Inr (), w1, uploaded1) \<and> uploaded1 \<subseteq> later \<longrightarrow>
      relpath (os_path_join root fname) MOUNT_DIR \<in> later
      \<and> sync_file opn2 root fname w2 later = (Inr (), w2, later))
   \<and> (scan_and_sync fs w uploaded = (r3, w3, uploaded3) \<longrightarrow> uploaded \<subseteq> uploaded3)
   \<and> (daemon_loop cycles w uploaded = (r4, w4, uploaded4) \<longrightarrow> uploaded \<subseteq> uploaded4)
   \<and> main [] w =
        (None, print_line ''Stopped.'' (print_line ''Drive sync (OAuth) starting...'' w), {})
   \<and> (main cycles w = (r5, w5, uploaded5) \<and> uploads (calls w) = [] \<longrightarrow>
        distinct (uploaded_paths w5) \<and> set (uploaded_paths w5) \<subseteq> uploaded5)"
proof (intro conjI impI)
  let ?rel = "relpath (os_path_join root fname) MOUNT_DIR"
  assume a: "sync_file opn root fname w uploaded = (Inr (), w1, uploaded1) \<and> uploaded1 \<subseteq> later"
  have "?rel \<in> uploaded1"
  proof (cases "?rel \<in> uploaded")
    case True
    with a show ?thesis by (simp add: sync_file_def)
  next
    case False
    with a show ?thesis
      by (auto simp: sync_file_def Let_def split: prod.splits sum.splits)
  qed
  with a show "?rel \<in> later" by blast
  then show "sync_file opn2 root fname w2 later = (Inr (), w2, later)"
    by (simp add: sync_file_def)
next
  assume "scan_and_sync fs w uploaded = (r3, w3, uploaded3)"
  then show "uploaded \<subseteq> uploaded3"
  proof (cases "notes_entry fs")
    case None
    assume "scan_and_sync fs w uploaded = (r3, w3, uploaded3)"
    with None show ?thesis by (simp add: scan_and_sync_def)
  next
    case (Some t)
    assume "scan_and_sync fs w uploaded = (r3, w3, uploaded3)"
    with Some show ?thesis
      by (simp add: scan_and_sync_def) (rule sync_walk_grows)
  qed
next
  assume "daemon_loop cycles w uploaded = (r4, w4, uploaded4)"
  then show "uploaded \<subseteq> uploaded4" by (rule daemon_loop_grows)
next
  show "main [] w =
        (None, print_line ''Stopped.'' (print_line ''Drive sync (OAuth) starting...'' w), {})"
    by (simp add: main_def)
next
  assume a: "main cycles w = (r5, w5, uploaded5) \<and> uploads (calls w) = []"
  obtain r' w' up' where d:
    "daemon_loop cycles (print_line ''Drive sync (OAuth) starting...'' w) {} = (r', w', up')"
    by (cases "daemon_loop cycles (print_line ''Drive sync (OAuth) starting...'' w) {}")
  from a have start: "uploaded_paths (print_line ''Drive sync (OAuth) starting...'' w) = []"
    by (simp add: uploaded_paths_def print_line_def)
  from daemon_loop_inv [OF d] start
  have inv: "distinct (uploaded_paths w')" "set (uploaded_paths w') \<subseteq> up'" by simp_all
  from a d have "uploaded_paths w5 = uploaded_paths w' \<and> uploaded5 = up'"
    by (cases r') (auto simp: main_def uploaded_paths_def print_line_def)
  with inv show "distinct (uploaded_paths w5)" and "set (uploaded_paths w5) \<subseteq> uploaded5"
    by simp_all
qed

theorem C4_no_duplicate_upload_witness:
  "sync_file (fopen fs_report) ''/tmp/myfs_mount/notes'' ''report.txt'' store_notes {}
     = (Inr (),
        store_notes\<lparr>objects := objects store_notes @
            [\<lparr>oid = ''n'', oname = ''report.txt'', oparents = [''x1''], is_folder = False,
              trashed = False, media = ''text'', modified = 3\<rparr>],
          fresh := 1,
          calls := [ListFolders DRIVE_FOLDER_ID ''notes'', ListFiles ''x1'' ''report.txt'',
                    CreateFile ''x1'' ''report.txt'' ''/tmp/myfs_mount/notes/report.txt''],
          out := [''[UPLOAD] report.txt'']\<rparr>,
        {''notes/report.txt''})
   \<and> {''notes/report.txt''} \<subseteq> {''notes/report.txt'', ''notes/other.txt''}
   \<and> sync_file Map.empty ''/tmp/myfs_mount/notes'' ''report.txt'' store_twins
         {''notes/report.txt'', ''notes/other.txt''}
       = (Inr (), store_twins, {''notes/report.txt'', ''notes/other.txt''})
   \<and> main [fs_report, fs_report] store_notes
       = (None,
          store_notes\<lparr>objects := objects store_notes @
              [\<lparr>oid = ''n'', oname = ''report.txt'', oparents = [''x1''], is_folder = False,
                trashed = False, media = ''text'', modified = 3\<rparr>],
            fresh := 1,
            calls := [ListFolders DRIVE_FOLDER_ID ''notes'', ListFiles ''x1'' ''report.txt'',
                      CreateFile ''x1'' ''report.txt'' ''/tmp/myfs_mount/notes/report.txt''],
            out := [''Drive sync (OAuth) starting...'', ''[UPLOAD] report.txt'', ''Stopped.'']\<rparr>,
          {''notes/report.txt''})
   \<and> uploads (calls store_notes) = []
   \<and> distinct (uploaded_paths (fst (snd (main [fs_report, fs_report] store_notes))))"
proof -
  let ?w1 = "store_notes\<lparr>objects := objects store_notes @
            [\<lparr>oid = ''n'', oname = ''report.txt'', oparents = [''x1''], is_folder = False,
              trashed = False, media = ''text'', modified = 3\<rparr>],
          fresh := 1,
          calls := [ListFolders DRIVE_FOLDER_ID ''notes'', ListFiles ''x1'' ''report.txt'',
                    CreateFile ''x1'' ''report.txt'' ''/tmp/myfs_mount/notes/report.txt''],
          out := [''[UPLOAD] report.txt'']\<rparr>"
  let ?w5 = "store_notes\<lparr>objects := objects store_notes @
              [\<lparr>oid = ''n'', oname = ''report.txt'', oparents = [''x1''], is_folder = False,
                trashed = False, media = ''text'', modified = 3\<rparr>],
            fresh := 1,
            calls := [ListFolders DRIVE_FOLDER_ID ''notes'', ListFiles ''x1'' ''report.txt'',
                      CreateFile ''x1'' ''report.txt'' ''/tmp/myfs_mount/notes/report.txt''],
            out := [''Drive sync (OAuth) starting...'', ''[UPLOAD] report.txt'', ''Stopped.'']\<rparr>"
  let ?later = "{''notes/report.txt'', ''notes/other.txt''}"
  have h1: "sync_file (fopen fs_report) ''/tmp/myfs_mount/notes'' ''report.txt'' store_notes {}
     = (Inr (), ?w1, {''notes/report.txt''})"
    by (simp add: fs_report_def store_notes_def scan_defs run_defs)
  have h2: "{''notes/report.txt''} \<subseteq> ?later" by simp
  have h3: "main [fs_report, fs_report] store_notes = (None, ?w5, {''notes/report.txt''})"
    by (simp add: fs_report_def store_notes_def scan_defs run_defs)
  have h4: "uploads (calls store_notes) = []"
    by (simp add: store_notes_def uploads_simps)
  note c4 = C4_no_duplicate_upload [where opn = "fopen fs_report"
      and root = "''/tmp/myfs_mount/notes''" and fname = "''report.txt''" and w = store_notes
      and uploaded = "{}" and ?w1.0 = ?w1 and ?uploaded1.0 = "{''notes/report.txt''}"
      and later = ?later and ?opn2.0 = Map.empty and ?w2.0 = store_twins
      and cycles = "[fs_report, fs_report]" and ?r5.0 = None and ?w5.0 = ?w5
      and ?uploaded5.0 = "{''notes/report.txt''}"]
  from c4 h1 h2
  have c: "sync_file Map.empty ''/tmp/myfs_mount/notes'' ''report.txt'' store_twins ?later
       = (Inr (), store_twins, ?later)"
    by blast
  from c4 h3 h4 have "distinct (uploaded_paths ?w5)" by blast
  with h3 have d: "distinct (uploaded_paths (fst (snd (main [fs_report, fs_report] store_notes))))"
    by simp
  from h1 h2 c h3 h4 d show ?thesis by blast
qed

section \<open>The paths the scan yields\<close>

text \<open>C9. For every file that the walk of a well-formed tree below \<^verbatim>\<open>notes\<close> finds, the path
  the scan computes is the file's path relative to the mount directory, the
  synchronization root one level above the scanned directory: prefixed with the mount
  directory it is the local path again, and it begins with \<^verbatim>\<open>notes/\<close>. The first
  segment that the resolver resolves under the root folder for it is \<^verbatim>\<open>notes\<close>; when a
  pass completes, the path is in the session sync record, and if it was not there
  before the pass the store holds a folder \<^verbatim>\<open>notes\<close> directly under the root.\<close>

theorem C9_scan_paths:
  assumes "wf_tree t"
    and "(root, dirs, files) \<in> set (os_walk (os_path_join MOUNT_DIR ''notes'') t)"
    and "fname \<in> set files"
  shows "MOUNT_DIR @ ''/'' @ relpath (os_path_join root fname) MOUNT_DIR = os_path_join root fname
       \<and> take 6 (relpath (os_path_join root fname) MOUNT_DIR) = ''notes/''
       \<and> hd (split_sep (strip_sep (dirname (relpath (os_path_join root fname) MOUNT_DIR))))
           = ''notes''
       \<and> (scan_and_sync \<lparr>notes_entry = Some t, fopen = opn\<rparr> w uploaded = (Inr (), w', uploaded')
            \<longrightarrow> relpath (os_path_join root fname) MOUNT_DIR \<in> uploaded'
              \<and> (relpath (os_path_join root fname) MOUNT_DIR \<notin> uploaded \<longrightarrow> has_top_folder w'))"
proof -
  let ?rel = "relpath (os_path_join root fname) MOUNT_DIR"
  from assms obtain ds where ds: "list_all valid_name ds" "valid_name fname"
    "os_path_join root fname = path_below ''/tmp/myfs_mount/notes'' (ds @ [fname])"
    "?rel = path_below ''notes'' (ds @ [fname])"
    "dirname ?rel = path_below ''notes'' ds"
    by (rule scan_paths)
  have c1: "MOUNT_DIR @ ''/'' @ ?rel = os_path_join root fname"
  proof -
    have "MOUNT_DIR @ ''/'' @ ?rel = MOUNT_DIR @ ''/'' @ path_below ''notes'' (ds @ [fname])"
      by (simp only: ds(4))
    also have "\<dots> = path_below ''/tmp/myfs_mount/notes'' (ds @ [fname])"
      by (simp add: path_below_def MOUNT_DIR_def)
    also have "\<dots> = os_path_join root fname"
      by (simp only: ds(3))
    finally show ?thesis .
  qed
  have c2: "take 6 ?rel = ''notes/''"
    by (cases ds) (simp_all add: ds(4) path_below_def)
  have c3: "hd (split_sep (strip_sep (dirname ?rel))) = ''notes''"
    by (simp add: ds(5) segments_below_notes [OF ds(1)])
  have c4: "?rel \<in> uploaded' \<and> (?rel \<notin> uploaded \<longrightarrow> has_top_folder w')"
    if run: "scan_and_sync \<lparr>notes_entry = Some t, fopen = opn\<rparr> w uploaded = (Inr (), w', uploaded')"
  proof -
    let ?walk = "os_walk (os_path_join MOUNT_DIR ''notes'') t"
    from run have sw: "sync_walk opn ?walk w uploaded = (Inr (), w', uploaded')"
      by (simp add: scan_and_sync_def)
    have shaped: "\<forall>(root, dirs, files)\<in>set ?walk. \<forall>fname\<in>set files. \<exists>ds. list_all valid_name ds
            \<and> dirname (relpath (os_path_join root fname) MOUNT_DIR) = path_below ''notes'' ds"
    proof (intro ballI, clarify)
      fix r d fs f
      assume "(r, d, fs) \<in> set ?walk" and "f \<in> set fs"
      with assms(1) obtain ds' where "list_all valid_name ds'"
        "dirname (relpath (os_path_join r f) MOUNT_DIR) = path_below ''notes'' ds'"
        by (rule scan_paths)
      then show "\<exists>ds. list_all valid_name ds
            \<and> dirname (relpath (os_path_join r f) MOUNT_DIR) = path_below ''notes'' ds"
        by blast
    qed
    from sync_walk_top [OF sw shaped]
    have top: "uploaded' \<noteq> uploaded \<longrightarrow> has_top_folder w'"
      and all: "\<forall>(root, dirs, files)\<in>set ?walk. \<forall>fname\<in>set files.
              relpath (os_path_join root fname) MOUNT_DIR \<in> uploaded'"
      by simp_all
    from all assms(2,3) have "?rel \<in> uploaded'" by blast
    with top show ?thesis by blast
  qed
  from c1 c2 c3 c4 show ?thesis by blast
qed

theorem C9_scan_paths_witness:
  "wf_tree (Dir [(''report.txt'', File), (''sub'', Dir [(''data.txt'', File)])])
   \<and> (''/tmp/myfs_mount/notes/sub'', [], [''data.txt''])
       \<in> set (os_walk (os_path_join MOUNT_DIR ''notes'')
                (Dir [(''report.txt'', File), (''sub'', Dir [(''data.txt'', File)])]))
   \<and> ''data.txt'' \<in> set [''data.txt'']
   \<and> MOUNT_DIR @ ''/'' @ relpath (os_path_join ''/tmp/myfs_mount/notes/sub'' ''data.txt'') MOUNT_DIR
       = os_path_join ''/tmp/myfs_mount/notes/sub'' ''data.txt''
   \<and> take 6 (relpath (os_path_join ''/tmp/myfs_mount/notes/sub'' ''data.txt'') MOUNT_DIR) = ''notes/''
   \<and> snd (snd (scan_and_sync fs_scenario store_empty {}))
       = {''notes/report.txt'', ''notes/sub/data.txt''}
   \<and> relpath (os_path_join ''/tmp/myfs_mount/notes/sub'' ''data.txt'') MOUNT_DIR
       \<in> snd (snd (scan_and_sync fs_scenario store_empty {}))
   \<and> has_top_folder (fst (snd (scan_and_sync fs_scenario store_empty {})))"
proof -
  let ?t = "Dir [(''report.txt'', File), (''sub'', Dir [(''data.txt'', File)])]"
  let ?root = "''/tmp/myfs_mount/notes/sub''"
  have h1: "wf_tree ?t" by (simp add: valid_name_def)
  have h2: "(?root, [], [''data.txt'']) \<in> set (os_walk (os_path_join MOUNT_DIR ''notes'') ?t)"
    by (simp add: os_path_join_def MOUNT_DIR_def)
  have h3: "''data.txt'' \<in> set [''data.txt'']" by simp
  have fs: "fs_scenario = \<lparr>notes_entry = Some ?t, fopen = fopen fs_scenario\<rparr>"
    by (simp add: fs_scenario_def)
  have run: "fst (scan_and_sync fs_scenario store_empty {}) = Inr ()"
    and rec: "snd (snd (scan_and_sync fs_scenario store_empty {}))
       = {''notes/report.txt'', ''notes/sub/data.txt''}"
    by (simp_all add: fs_scenario_def store_empty_def scan_defs run_defs insert_commute)
  obtain w' up' where r: "scan_and_sync \<lparr>notes_entry = Some ?t, fopen = fopen fs_scenario\<rparr>
      store_empty {} = (Inr (), w', up')"
    using run fs by (cases "scan_and_sync fs_scenario store_empty {}") simp
  note c9 = C9_scan_paths [OF h1 h2 h3, of "fopen fs_scenario" store_empty "{}" w' up']
  from c9 r have "relpath (os_path_join ?root ''data.txt'') MOUNT_DIR \<in> up'"
    and "has_top_folder w'"
    by simp_all
  with r fs have c: "relpath (os_path_join ?root ''data.txt'') MOUNT_DIR
       \<in> snd (snd (scan_and_sync fs_scenario store_empty {}))"
    and d: "has_top_folder (fst (snd (scan_and_sync fs_scenario store_empty {})))"
    by simp_all
  from c9 have a: "MOUNT_DIR @ ''/'' @ relpath (os_path_join ?root ''data.txt'') MOUNT_DIR
       = os_path_join ?root ''data.txt''"
    and b: "take 6 (relpath (os_path_join ?root ''data.txt'') MOUNT_DIR) = ''notes/''"
    by simp_all
  from h1 h2 h3 a b rec c d show ?thesis by blast
qed

section \<open>Create or update\<close>




section \<open>Several objects of one name under one parent\<close>

text \<open>C8, as amended. For a name that is well-formed UTF-8 and holds neither a quote nor a
  backslash, when the lookup request is answered with a result: the folder lookup
  returns the id of the first object in the store's order that is a folder, is not
  trashed, has the parent among its parents and has the name, and the file lookup
  returns the first object that is not trashed, has the parent among its parents and
  has the name; each reports absent when there is no such object. With several such
  objects nothing is printed, and the folder walk goes on under the first one when its
  id is not empty.\<close>

theorem C8_first_match:
  assumes "utf8_ok name" and "literal_ok name"
    and "list_all (\<lambda>a. a = Answered) (take 1 (faults w))"
  shows "find_child_folder w parent name =
           (Inr (case filter (\<lambda>ob. is_folder ob \<and> \<not> trashed ob \<and> parent \<in> set (oparents ob)
                                  \<and> oname ob = name) (objects w) of
                   [] \<Rightarrow> None | f # _ \<Rightarrow> Some (oid f)),
            w\<lparr>calls := calls w @ [ListFolders parent name], faults := tl (faults w)\<rparr>)
       \<and> find_drive_file w parent name =
           (Inr (case filter (\<lambda>ob. \<not> trashed ob \<and> parent \<in> set (oparents ob)
                                  \<and> oname ob = name) (objects w) of
                   [] \<Rightarrow> None | f # _ \<Rightarrow> Some f),
            w\<lparr>calls := calls w @ [ListFiles parent name], faults := tl (faults w)\<rparr>)
       \<and> out (snd (find_child_folder w parent name)) = out w
       \<and> out (snd (find_drive_file w parent name)) = out w
       \<and> (\<forall>f others.
             filter (\<lambda>ob. is_folder ob \<and> \<not> trashed ob \<and> parent \<in> set (oparents ob)
                          \<and> oname ob = name) (objects w) = f # others
             \<and> oid f \<noteq> [] \<longrightarrow>
            ensure_loop (name # parts) parent w =
              ensure_loop parts (oid f)
                (w\<lparr>calls := calls w @ [ListFolders parent name], faults := tl (faults w)\<rparr>))"
proof -
  from assms(3) have a: "next_answer (faults w) = Answered" by (simp add: quiet1)
  from assms(1,2) a show ?thesis
    unfolding matches_folder [symmetric] matches_any [symmetric]
    by (auto simp: find_child_folder_def find_drive_file_def files_list_eq truthy_def
           split: list.splits)
qed

theorem C8_first_match_witness:
  "utf8_ok ''a'' \<and> literal_ok ''a''
   \<and> list_all (\<lambda>a. a = Answered) (take 1 (faults store_folders))
   \<and> find_child_folder store_folders DRIVE_FOLDER_ID ''a''
        = (Inr (Some ''x1''), store_folders\<lparr>calls := [ListFolders DRIVE_FOLDER_ID ''a'']\<rparr>)
   \<and> find_drive_file store_folders DRIVE_FOLDER_ID ''a''
        = (Inr (Some \<lparr>oid = ''f1'', oname = ''a'', oparents = [DRIVE_FOLDER_ID],
                      is_folder = False, trashed = False, media = ''a file'', modified = 0\<rparr>),
           store_folders\<lparr>calls := [ListFiles DRIVE_FOLDER_ID ''a'']\<rparr>)
   \<and> find_child_folder store_folders DRIVE_FOLDER_ID ''c''
        = (Inr None, store_folders\<lparr>calls := [ListFolders DRIVE_FOLDER_ID ''c'']\<rparr>)
   \<and> out (snd (find_child_folder store_folders DRIVE_FOLDER_ID ''a'')) = out store_folders
   \<and> ensure_loop [''a''] DRIVE_FOLDER_ID store_folders
        = (Inr ''x1'', store_folders\<lparr>calls := [ListFolders DRIVE_FOLDER_ID ''a'']\<rparr>)
   \<and> utf8_ok ''report.txt'' \<and> literal_ok ''report.txt''
   \<and> list_all (\<lambda>a. a = Answered) (take 1 (faults store_lookalikes))
   \<and> find_drive_file store_lookalikes ''x1'' ''report.txt''
        = (Inr (Some \<lparr>oid = ''x2'', oname = ''report.txt'', oparents = [''x1''],
                      is_folder = False, trashed = False, media = ''old'', modified = 4\<rparr>),
           store_lookalikes\<lparr>calls := [ListFiles ''x1'' ''report.txt'']\<rparr>)"
proof -
  have h1: "utf8_ok ''a''" "utf8_ok ''c''" by (simp_all add: utf8_ok.simps seq_len_def)
  have h2: "literal_ok ''a''" "literal_ok ''c''" by (simp_all add: literal_ok_def)
  have h3: "list_all (\<lambda>a. a = Answered) (take 1 (faults store_folders))"
    by (simp add: store_folders_def)
  note a = C8_first_match [OF h1(1) h2(1) h3, of DRIVE_FOLDER_ID "[]"]
  note c = C8_first_match [OF h1(2) h2(2) h3, of DRIVE_FOLDER_ID "[]"]
  from a have a1: "find_child_folder store_folders DRIVE_FOLDER_ID ''a''
        = (Inr (Some ''x1''), store_folders\<lparr>calls := [ListFolders DRIVE_FOLDER_ID ''a'']\<rparr>)"
    and a2: "find_drive_file store_folders DRIVE_FOLDER_ID ''a''
        = (Inr (Some \<lparr>oid = ''f1'', oname = ''a'', oparents = [DRIVE_FOLDER_ID],
                      is_folder = False, trashed = False, media = ''a file'', modified = 0\<rparr>),
           store_folders\<lparr>calls := [ListFiles DRIVE_FOLDER_ID ''a'']\<rparr>)"
    and a3: "out (snd (find_child_folder store_folders DRIVE_FOLDER_ID ''a'')) = out store_folders"
    by (simp_all add: store_folders_def DRIVE_FOLDER_ID_def)
  from c have c1: "find_child_folder store_folders DRIVE_FOLDER_ID ''c''
        = (Inr None, store_folders\<lparr>calls := [ListFolders DRIVE_FOLDER_ID ''c'']\<rparr>)"
    by (simp add: store_folders_def DRIVE_FOLDER_ID_def)
  from a have "ensure_loop [''a''] DRIVE_FOLDER_ID store_folders
        = ensure_loop [] ''x1''
            (store_folders\<lparr>calls := calls store_folders @ [ListFolders DRIVE_FOLDER_ID ''a''],
               faults := tl (faults store_folders)\<rparr>)"
    by (simp add: store_folders_def DRIVE_FOLDER_ID_def del: ensure_loop.simps)
  then have a4: "ensure_loop [''a''] DRIVE_FOLDER_ID store_folders
        = (Inr ''x1'', store_folders\<lparr>calls := [ListFolders DRIVE_FOLDER_ID ''a'']\<rparr>)"
    by (simp add: store_folders_def del: ensure_loop.simps(2))
  have k1: "utf8_ok ''report.txt''" by (simp add: utf8_ok.simps seq_len_def)
  have k2: "literal_ok ''report.txt''" by (simp add: literal_ok_def)
  have k3: "list_all (\<lambda>a. a = Answered) (take 1 (faults store_lookalikes))"
    by (simp add: store_lookalikes_def)
  from C8_first_match [OF k1 k2 k3, of "''x1''" "[]"]
  have r: "find_drive_file store_lookalikes ''x1'' ''report.txt''
        = (Inr (Some \<lparr>oid = ''x2'', oname = ''report.txt'', oparents = [''x1''],
                      is_folder = False, trashed = False, media = ''old'', modified = 4\<rparr>),
           store_lookalikes\<lparr>calls := [ListFiles ''x1'' ''report.txt'']\<rparr>)"
    by (simp add: store_lookalikes_def)
  from h1(1) h2(1) h3 a1 a2 c1 a3 a4 k1 k2 k3 r show ?thesis by blast
qed

text \<open>As the specification states it, the property fails on a store with two folders
  \<^verbatim>\<open>a\<close> under the root: the lookup returns the first and prints nothing.\<close>

theorem C8_no_log_counterexample:
  "find_child_folder
     \<lparr>objects = [\<lparr>oid = ''x1'', oname = ''a'', oparents = [DRIVE_FOLDER_ID],
                   is_folder = True, trashed = False, media = [], modified = 0\<rparr>,
                 \<lparr>oid = ''x2'', oname = ''a'', oparents = [DRIVE_FOLDER_ID],
                   is_folder = True, trashed = False, media = [], modified = 1\<rparr>],
       fresh = 0, faults = [], calls = [], out = []\<rparr>
     DRIVE_FOLDER_ID ''a''
   = (Inr (Some ''x1''),
      \<lparr>objects = [\<lparr>oid = ''x1'', oname = ''a'', oparents = [DRIVE_FOLDER_ID],
                    is_folder = True, trashed = False, media = [], modified = 0\<rparr>,
                  \<lparr>oid = ''x2'', oname = ''a'', oparents = [DRIVE_FOLDER_ID],
                    is_folder = True, trashed = False, media = [], modified = 1\<rparr>],
        fresh = 0, faults = [], calls = [ListFolders DRIVE_FOLDER_ID ''a''], out = []\<rparr>)"
  by (simp add: run_defs)

section \<open>Errors while one file is reconciled\<close>




section \<open>Folder mirroring\<close>




end
